theory Spec2Isabelle
  imports Main
begin

section \<open>Exceptions, references and Python list operations\<close>

text \<open>
  The exceptions that can leave an operation of a type unit. \<open>DWARFError\<close> is what
  \<open>dwarf_assert\<close> raises (the docstring of \<open>get_DIE_from_refaddr\<close> names it),
  \<open>NotImplementedError\<close> is raised by \<open>iter_DIE_children\<close>, \<open>IndexError\<close>,
  \<open>AttributeError\<close> and \<open>KeyError\<close> are what Python raises on an index out of range, on
  an attribute access on \<open>None\<close> and on a missing dictionary key. \<open>FormatError\<close> and \<open>RangeError\<close> are the error kinds the
  specification names; no operation of the unit raises them by itself, the DIE parser
  (a parameter below) may raise anything.
\<close>

datatype exn = DWARFError | NotImplementedError | IndexError | AttributeError | KeyError
  | FormatError | RangeError

text \<open>
  A DIE is a mutable Python object: the unit keeps references to DIE objects. A reference
  is the index of the object in the unit's object store (objects are created in order and
  never freed).
\<close>

type_synonym ref = nat

text \<open>\<open>list.insert(i, x)\<close> for an index \<open>i \<ge> 0\<close>: past the end it appends.\<close>

definition list_insert :: "'a list \<Rightarrow> nat \<Rightarrow> 'a \<Rightarrow> 'a list" where
  "list_insert xs i x = take i xs @ x # drop i xs"

text \<open>\<open>xs[j]\<close>: a negative index counts from the end; out of range raises IndexError.\<close>

definition py_index :: "'a list \<Rightarrow> int \<Rightarrow> exn + 'a" where
  "py_index xs j =
     (let n = int (length xs); k = (if j < 0 then n + j else j)
      in if 0 \<le> k \<and> k < n then Inr (xs ! nat k) else Inl IndexError)"

text \<open>
  \<open>bisect.bisect_right(a, x)\<close> of the standard library: the binary search
  \<^verbatim>\<open>while lo < hi: mid = (lo + hi) // 2; if x < a[mid]: hi = mid; else: lo = mid + 1\<close>.
\<close>

function bisect_right_loop :: "int list \<Rightarrow> int \<Rightarrow> nat \<Rightarrow> nat \<Rightarrow> nat" where
  "bisect_right_loop a x lo hi =
     (if lo < hi then
        (let mid = (lo + hi) div 2
         in if x < a ! mid then bisect_right_loop a x lo mid
            else bisect_right_loop a x (mid + 1) hi)
      else lo)"
  by pat_completeness auto
termination
  by (relation "measure (\<lambda>(a, x, lo, hi). hi - lo)") auto

declare bisect_right_loop.simps [simp del]

definition bisect_right :: "int list \<Rightarrow> int \<Rightarrow> nat" where
  "bisect_right a x = bisect_right_loop a x 0 (length a)"

section \<open>Debugging information entries\<close>

text \<open>
  An attribute value as the iteration reads it: the form it was encoded in and its
  (integer) value.
\<close>

record AttributeValue =
  form :: string
  attr_value :: int

text \<open>
  The fields of a DIE object that the unit reads and writes. \<open>tag\<close> is \<open>None\<close> for a
  null DIE (\<open>is_null\<close>); \<open>attributes\<close> holds the items of the attribute dictionary
  (looked up by name with \<open>map_of\<close>); \<open>terminator\<close> and \<open>parent\<close> are the navigation
  fields \<open>_terminator\<close> and \<open>_parent\<close>, references to other DIE objects.
\<close>

record DIE =
  offset :: int
  tag :: "string option"
  has_children :: bool
  die_size :: int
  attributes :: "(string \<times> AttributeValue) list"
  terminator :: "ref option"
  parent :: "ref option"

text \<open>
  What decoding the stream at an offset gives: a null entry of some size, or an entry with
  its tag, has-children flag, size and attributes. The stream, the abbreviation table and
  the form decoder are external to the unit; together they are the parameter
  \<open>P :: parser\<close>, which may raise.
\<close>

datatype parsed = Null int | Entry string bool int "(string \<times> AttributeValue) list"

type_synonym parser = "int \<Rightarrow> exn + parsed"

text \<open>
  Modelled from the spec: the constructor \<open>DIE(cu, stream, offset)\<close> of
  \<open>elftools/dwarf/die.py\<close>, which is not among the sources at hand. It parses the entry at
  \<open>offset\<close> (sections 3 and 4.2 of the specification): a null DIE has no tag, no children
  and no attributes; the parent and the terminator are unset in a new object.
\<close>

definition DIE_init :: "parser \<Rightarrow> int \<Rightarrow> exn + DIE" where
  "DIE_init P off =
     (case P off of
        Inl e \<Rightarrow> Inl e
      | Inr (Null sz) \<Rightarrow>
          Inr \<lparr>offset = off, tag = None, has_children = False, die_size = sz,
               attributes = [], terminator = None, parent = None\<rparr>
      | Inr (Entry tg hc sz ats) \<Rightarrow>
          Inr \<lparr>offset = off, tag = Some tg, has_children = hc, die_size = sz,
               attributes = ats, terminator = None, parent = None\<rparr>)"

text \<open>
  \<open>DIE._translate_indirect_attributes\<close> (also in \<open>die.py\<close>) rewrites the attribute values
  of the top DIE and may raise; it is the parameter \<open>T :: translator\<close>.
\<close>

type_synonym translator =
  "(string \<times> AttributeValue) list \<Rightarrow> exn + (string \<times> AttributeValue) list"

section \<open>The type unit\<close>

text \<open>
  The state of a \<open>TypeUnit\<close> object: the header field \<open>unit_length\<close>, the width
  \<open>structs.initial_length_field_size()\<close>, the two offsets given to the constructor,
  whether \<open>dwarfinfo.supplementary_dwarfinfo\<close> is set, the parallel lists \<open>_dielist\<close>
  and \<open>_diemap\<close>, and the store of the DIE objects created so far.
\<close>

record TypeUnit =
  unit_length :: int
  initial_length_field_size :: int
  tu_offset :: int
  tu_die_offset :: int
  supplementary_dwarfinfo :: bool
  dielist :: "ref list"
  diemap :: "int list"
  objects :: "DIE list"

definition TypeUnit_init :: "int \<Rightarrow> int \<Rightarrow> bool \<Rightarrow> int \<Rightarrow> int \<Rightarrow> TypeUnit" where
  "TypeUnit_init ulen width supp tu_off die_off =
     \<lparr>unit_length = ulen, initial_length_field_size = width, tu_offset = tu_off,
      tu_die_offset = die_off, supplementary_dwarfinfo = supp,
      dielist = [], diemap = [], objects = []\<rparr>"

definition cu_offset :: "TypeUnit \<Rightarrow> int" where
  "cu_offset u = tu_offset u"

definition cu_die_offset :: "TypeUnit \<Rightarrow> int" where
  "cu_die_offset u = tu_die_offset u"

definition tu_size :: "TypeUnit \<Rightarrow> int" where
  "tu_size u = unit_length u + initial_length_field_size u"

text \<open>
  An operation returns its value or the exception it raised, together with the state of the
  unit at that moment (an exception does not undo the writes made before it).
\<close>

type_synonym 'a outcome = "(exn + 'a) \<times> TypeUnit"

definition get_top_DIE :: "parser \<Rightarrow> translator \<Rightarrow> TypeUnit \<Rightarrow> ref outcome" where
  "get_top_DIE P T u =
     (if diemap u \<noteq> [] then
        (case py_index (dielist u) 0 of Inl e \<Rightarrow> (Inl e, u) | Inr r \<Rightarrow> (Inr r, u))
      else
        (case DIE_init P (tu_die_offset u) of
           Inl e \<Rightarrow> (Inl e, u)
         | Inr d \<Rightarrow>
             (let r = length (objects u);
                  u1 = u\<lparr>dielist := list_insert (dielist u) 0 r,
                         diemap := list_insert (diemap u) 0 (tu_die_offset u),
                         objects := objects u @ [d]\<rparr>
              in case T (attributes d) of
                   Inl e \<Rightarrow> (Inl e, u1)
                 | Inr ats \<Rightarrow>
                     (Inr r, u1\<lparr>objects := (objects u1)[r := d\<lparr>attributes := ats\<rparr>]\<rparr>))))"

definition has_top_DIE :: "TypeUnit \<Rightarrow> bool outcome" where
  "has_top_DIE u = (Inr (diemap u \<noteq> []), u)"

definition get_cached_DIE :: "parser \<Rightarrow> translator \<Rightarrow> TypeUnit \<Rightarrow> int \<Rightarrow> ref outcome" where
  "get_cached_DIE P T u off =
     (case get_top_DIE P T u of
        (Inl e, u1) \<Rightarrow> (Inl e, u1)
      | (Inr top_die, u1) \<Rightarrow>
          (let i = bisect_right (diemap u1) off
           in case py_index (diemap u1) (int i - 1) of
                Inl e \<Rightarrow> (Inl e, u1)
              | Inr m \<Rightarrow>
                  if off = m then
                    (case py_index (dielist u1) (int i - 1) of
                       Inl e \<Rightarrow> (Inl e, u1)
                     | Inr r \<Rightarrow> (Inr r, u1))
                  else
                    (case DIE_init P off of
                       Inl e \<Rightarrow> (Inl e, u1)
                     | Inr d \<Rightarrow>
                         (Inr (length (objects u1)),
                          u1\<lparr>dielist := list_insert (dielist u1) i (length (objects u1)),
                             diemap := list_insert (diemap u1) i off,
                             objects := objects u1 @ [d]\<rparr>))))"

text \<open>
  \<open>dwarf_assert\<close> (\<open>elftools/common/utils.py\<close>, not among the sources) raises
  \<open>DWARFError\<close> when its condition is false, as the docstring of
  \<open>get_DIE_from_refaddr\<close> says.
\<close>

definition get_DIE_from_refaddr :: "parser \<Rightarrow> translator \<Rightarrow> TypeUnit \<Rightarrow> int \<Rightarrow> ref outcome" where
  "get_DIE_from_refaddr P T u refaddr =
     (if cu_die_offset u \<le> refaddr \<and> refaddr < cu_offset u + tu_size u
      then get_cached_DIE P T u refaddr
      else (Inl DWARFError, u))"

section \<open>Iteration over children\<close>

definition set_parent :: "ref \<Rightarrow> ref \<Rightarrow> TypeUnit \<Rightarrow> TypeUnit" where
  "set_parent child die u =
     u\<lparr>objects := (objects u)[child := (objects u ! child)\<lparr>parent := Some die\<rparr>]\<rparr>"

definition set_terminator :: "ref \<Rightarrow> ref \<Rightarrow> TypeUnit \<Rightarrow> TypeUnit" where
  "set_terminator die child u =
     u\<lparr>objects := (objects u)[die := (objects u ! die)\<lparr>terminator := Some child\<rparr>]\<rparr>"

definition relative_forms :: "string list" where
  "relative_forms = [''DW_FORM_ref1'', ''DW_FORM_ref2'', ''DW_FORM_ref4'', ''DW_FORM_ref8'',
                     ''DW_FORM_ref'', ''DW_FORM_ref_udata'']"

text \<open>
  The cursor a \<open>DW_AT_sibling\<close> attribute gives (lines 163 to 171); \<open>base\<close> is
  \<open>self.tu_offset\<close>.
\<close>

definition sibling_offset :: "int \<Rightarrow> AttributeValue \<Rightarrow> exn + int" where
  "sibling_offset base sibling =
     (if form sibling \<in> set relative_forms then Inr (attr_value sibling + base)
      else if form sibling = ''DW_FORM_ref_addr'' then Inr (attr_value sibling)
      else Inl NotImplementedError)"

text \<open>
  \<open>iter_DIE_children\<close> is a generator, and its loop may run forever on malformed data, so
  the model takes fuel: \<open>None\<close> means that the fuel did not suffice. A \<open>yield child\<close>
  hands the child to the loop body of the consumer, which runs (on the state of the unit)
  before the generator is resumed; the consumer is the parameter \<open>body\<close>, and the result
  collects what the consumer's bodies produced, in order. The values produced are
  references to DIE objects, or \<open>None\<close>.
\<close>

type_synonym 'a run = "((exn + 'a) \<times> TypeUnit) option"

type_synonym consumer = "ref \<Rightarrow> TypeUnit \<Rightarrow> (ref option list) run"

text \<open>The body \<open>pass\<close>, and the body that keeps the child (\<open>list(...)\<close>).\<close>

definition pass :: consumer where
  "pass child u = Some (Inr [], u)"

definition keep :: consumer where
  "keep child u = Some (Inr [Some child], u)"

fun iter_DIE_children :: "nat \<Rightarrow> parser \<Rightarrow> translator \<Rightarrow> consumer \<Rightarrow> ref \<Rightarrow> TypeUnit \<Rightarrow> (ref option list) run"
and children_loop :: "nat \<Rightarrow> parser \<Rightarrow> translator \<Rightarrow> consumer \<Rightarrow> ref \<Rightarrow> int \<Rightarrow> TypeUnit \<Rightarrow> (ref option list) run"
and next_cur_offset :: "nat \<Rightarrow> parser \<Rightarrow> translator \<Rightarrow> ref \<Rightarrow> int \<Rightarrow> TypeUnit \<Rightarrow> int run"
where
  "iter_DIE_children 0 P T body die u = None"
| "iter_DIE_children (Suc n) P T body die u =
     (if \<not> has_children (objects u ! die) then Some (Inr [], u)
      else children_loop n P T body die
             (offset (objects u ! die) + die_size (objects u ! die)) u)"
| "children_loop 0 P T body die cur u = None"
| "children_loop (Suc n) P T body die cur u =
     (case get_cached_DIE P T u cur of
        (Inl e, u1) \<Rightarrow> Some (Inl e, u1)
      | (Inr child, u1) \<Rightarrow>
          (let u2 = set_parent child die u1
           in if tag (objects u2 ! child) = None
              then Some (Inr [], set_terminator die child u2)
              else
                (case body child u2 of
                   None \<Rightarrow> None
                 | Some (Inl e, u3) \<Rightarrow> Some (Inl e, u3)
                 | Some (Inr ys, u3) \<Rightarrow>
                     (case next_cur_offset n P T child cur u3 of
                        None \<Rightarrow> None
                      | Some (Inl e, u4) \<Rightarrow> Some (Inl e, u4)
                      | Some (Inr cur', u4) \<Rightarrow>
                          (case children_loop n P T body die cur' u4 of
                             None \<Rightarrow> None
                           | Some (Inl e, u5) \<Rightarrow> Some (Inl e, u5)
                           | Some (Inr zs, u5) \<Rightarrow> Some (Inr (ys @ zs), u5))))))"
| "next_cur_offset 0 P T child cur u = None"
| "next_cur_offset (Suc n) P T child cur u =
     (if \<not> has_children (objects u ! child)
      then Some (Inr (cur + die_size (objects u ! child)), u)
      else
        (case map_of (attributes (objects u ! child)) ''DW_AT_sibling'' of
           Some sibling \<Rightarrow> Some (sibling_offset (tu_offset u) sibling, u)
         | None \<Rightarrow>
             (case (if terminator (objects u ! child) = None
                    then iter_DIE_children n P T pass child u
                    else Some (Inr [], u)) of
                None \<Rightarrow> None
              | Some (Inl e, u1) \<Rightarrow> Some (Inl e, u1)
              | Some (Inr ys, u1) \<Rightarrow>
                  (case terminator (objects u1 ! child) of
                     None \<Rightarrow> Some (Inl AttributeError, u1)
                   | Some t \<Rightarrow>
                       Some (Inr (offset (objects u1 ! t) + die_size (objects u1 ! t)), u1)))))"

section \<open>Enumeration of a subtree\<close>

text \<open>
  \<open>DIE.get_DIE_from_attribute('DW_AT_import')\<close> resolves the import of an imported unit
  through the debugging-information context; it is the parameter \<open>G :: importer\<close>.
  \<open>die.iter_children()\<close> is \<open>die.cu.iter_DIE_children(die)\<close>.
\<close>

type_synonym importer = "ref \<Rightarrow> TypeUnit \<Rightarrow> ref outcome"

primrec iter_DIE_subtree :: "nat \<Rightarrow> parser \<Rightarrow> translator \<Rightarrow> importer \<Rightarrow> ref \<Rightarrow> TypeUnit \<Rightarrow> (ref option list) run" where
  "iter_DIE_subtree 0 P T G die0 u = None"
| "iter_DIE_subtree (Suc n) P T G die0 u =
     (case (if tag (objects u ! die0) = Some ''DW_TAG_imported_unit'' \<and> supplementary_dwarfinfo u
            then G die0 u else (Inr die0, u)) of
        (Inl e, u1) \<Rightarrow> Some (Inl e, u1)
      | (Inr die, u1) \<Rightarrow>
          if has_children (objects u1 ! die) then
            (case iter_DIE_children n P T (iter_DIE_subtree n P T G) die u1 of
               None \<Rightarrow> None
             | Some (Inl e, u2) \<Rightarrow> Some (Inl e, u2)
             | Some (Inr ys, u2) \<Rightarrow>
                 Some (Inr (Some die # ys @ [terminator (objects u2 ! die)]), u2))
          else Some (Inr [Some die], u1))"

definition iter_DIEs :: "nat \<Rightarrow> parser \<Rightarrow> translator \<Rightarrow> importer \<Rightarrow> TypeUnit \<Rightarrow> (ref option list) run" where
  "iter_DIEs n P T G u =
     (case get_top_DIE P T u of
        (Inl e, u1) \<Rightarrow> Some (Inl e, u1)
      | (Inr top_die, u1) \<Rightarrow> iter_DIE_subtree n P T G top_die u1)"

text \<open>
  Modelled from the spec: \<open>DIE.get_DIE_from_attribute\<close> of \<open>die.py\<close> (not among the
  sources), the cross-reference resolver of section 2 of the specification: the reference
  value of the attribute, plus the unit's base offset for the unit-relative forms, is
  resolved within the referencing unit (\<open>get_DIE_from_refaddr\<close>). It is one possible
  importer, used in the examples.
\<close>

definition get_DIE_from_attribute :: "parser \<Rightarrow> translator \<Rightarrow> string \<Rightarrow> importer" where
  "get_DIE_from_attribute P T name die u =
     (case map_of (attributes (objects u ! die)) name of
        None \<Rightarrow> (Inl KeyError, u)
      | Some a \<Rightarrow>
          if form a \<in> set relative_forms
          then get_DIE_from_refaddr P T u (attr_value a + cu_offset u)
          else if form a = ''DW_FORM_ref_addr''
          then get_DIE_from_refaddr P T u (attr_value a)
          else (Inl NotImplementedError, u))"

section \<open>Invariants of the cache\<close>

text \<open>
  The two lists are parallel, the offsets are strictly ascending, and every cached
  reference is an object of the store whose offset is the one \<open>_diemap\<close> records.
\<close>

definition cache_sorted :: "TypeUnit \<Rightarrow> bool" where
  "cache_sorted u \<longleftrightarrow>
     sorted_wrt (<) (diemap u) \<and>
     list_all2 (\<lambda>r off. r < length (objects u) \<and> offset (objects u ! r) = off)
       (dielist u) (diemap u)"

text \<open>A non-empty cache starts with the top DIE's offset.\<close>

definition top_first :: "TypeUnit \<Rightarrow> bool" where
  "top_first u \<longleftrightarrow> (diemap u \<noteq> [] \<longrightarrow> diemap u ! 0 = tu_die_offset u)"

definition unit_inv :: "TypeUnit \<Rightarrow> bool" where
  "unit_inv u \<longleftrightarrow> cache_sorted u \<and> top_first u"

text \<open>The header and the context of a unit, which no operation writes.\<close>

definition same_unit :: "TypeUnit \<Rightarrow> TypeUnit \<Rightarrow> bool" where
  "same_unit u u' \<longleftrightarrow>
     unit_length u' = unit_length u \<and>
     initial_length_field_size u' = initial_length_field_size u \<and>
     tu_offset u' = tu_offset u \<and> tu_die_offset u' = tu_die_offset u \<and>
     supplementary_dwarfinfo u' = supplementary_dwarfinfo u"

section \<open>Well-formed layouts\<close>

text \<open>
  The byte layout of a tree, read through the parser: \<open>entry_at P base off es e\<close> says that
  a well-formed entry with its subtree starts at \<open>off\<close> and ends before \<open>e\<close>, and that
  \<open>es\<close> are the offsets of the subtree in depth-first pre-order, each children list
  followed by the offset of its null terminator. \<open>children_at P base off cs es t e\<close> says
  that a well-formed children list starts at \<open>off\<close>: \<open>cs\<close> are the offsets of the
  children, \<open>es\<close> the pre-order offsets of their subtrees, \<open>t\<close> the offset of the null
  terminator and \<open>e\<close> the offset after it. Every entry takes at least one byte. An entry
  with children that carries a sibling shortcut is well formed when the shortcut points
  to the end of its subtree.

  Where a shortcut points is read off the attribute in the words of the specification
  (section 4.5), not through the code: the reference resolves to an absolute offset,
  unit-relative forms add the unit's base offset, absolute forms are used as-is. The
  forms are the reference forms of DWARF: \<open>DW_FORM_ref_addr\<close> is the absolute one,
  \<open>DW_FORM_ref1\<close>, \<open>ref2\<close>, \<open>ref4\<close>, \<open>ref8\<close> and \<open>ref_udata\<close> are relative to the unit. A
  sibling attribute of any other form resolves to nothing, and a tree that carries one on
  an entry with children is not well formed.
\<close>

definition unit_relative_forms :: "string list" where
  "unit_relative_forms = [''DW_FORM_ref1'', ''DW_FORM_ref2'', ''DW_FORM_ref4'', ''DW_FORM_ref8'',
                          ''DW_FORM_ref_udata'']"

definition spec_sibling_target :: "int \<Rightarrow> AttributeValue \<Rightarrow> int option" where
  "spec_sibling_target base sibling =
     (if form sibling = ''DW_FORM_ref_addr'' then Some (attr_value sibling)
      else if form sibling \<in> set unit_relative_forms then Some (base + attr_value sibling)
      else None)"

definition sibling_ok :: "int \<Rightarrow> (string \<times> AttributeValue) list \<Rightarrow> int \<Rightarrow> bool" where
  "sibling_ok base ats e =
     (case map_of ats ''DW_AT_sibling'' of
        None \<Rightarrow> True
      | Some sibling \<Rightarrow> spec_sibling_target base sibling = Some e)"

inductive entry_at :: "parser \<Rightarrow> int \<Rightarrow> int \<Rightarrow> int list \<Rightarrow> int \<Rightarrow> bool"
  and children_at :: "parser \<Rightarrow> int \<Rightarrow> int \<Rightarrow> int list \<Rightarrow> int list \<Rightarrow> int \<Rightarrow> int \<Rightarrow> bool"
  for P :: parser and base :: int
where
  leaf: "P off = Inr (Entry tg False sz ats) \<Longrightarrow> 0 < sz \<Longrightarrow>
         entry_at P base off [off] (off + sz)"
| node: "P off = Inr (Entry tg True sz ats) \<Longrightarrow> 0 < sz \<Longrightarrow>
         children_at P base (off + sz) cs es t e \<Longrightarrow> sibling_ok base ats e \<Longrightarrow>
         entry_at P base off (off # es @ [t]) e"
| nil: "P off = Inr (Null sz) \<Longrightarrow> 0 < sz \<Longrightarrow> children_at P base off [] [] off (off + sz)"
| cons: "entry_at P base off es1 e1 \<Longrightarrow> children_at P base e1 cs es2 t e \<Longrightarrow>
         children_at P base off (off # cs) (es1 @ es2) t e"

text \<open>
  The state of a unit is consistent with the stream when the invariant of the cache holds,
  the top DIE is cached, and every object of the store lies at or after the top DIE, has
  the tag, the has-children flag and the size that the stream gives at its offset (and its
  attributes, except for the top DIE, whose attributes have been translated), and has a
  terminator, when it has one, that is the null entry ending its children list.
\<close>

definition agrees :: "parser \<Rightarrow> int \<Rightarrow> DIE \<Rightarrow> bool" where
  "agrees P top_off d \<longleftrightarrow>
     (case DIE_init P (offset d) of
        Inl e \<Rightarrow> False
      | Inr d0 \<Rightarrow>
          tag d = tag d0 \<and> has_children d = has_children d0 \<and> die_size d = die_size d0 \<and>
          (offset d \<noteq> top_off \<longrightarrow> attributes d = attributes d0))"

definition terminator_ok :: "parser \<Rightarrow> TypeUnit \<Rightarrow> DIE \<Rightarrow> bool" where
  "terminator_ok P u d \<longleftrightarrow>
     (case terminator d of
        None \<Rightarrow> True
      | Some t \<Rightarrow>
          t < length (objects u) \<and> tag (objects u ! t) = None \<and>
          (\<exists>cs es. children_at P (tu_offset u) (offset d + die_size d) cs es
                     (offset (objects u ! t))
                     (offset (objects u ! t) + die_size (objects u ! t))))"

definition consistent :: "parser \<Rightarrow> TypeUnit \<Rightarrow> bool" where
  "consistent P u \<longleftrightarrow>
     unit_inv u \<and> diemap u \<noteq> [] \<and>
     (\<forall>d\<in>set (objects u).
        tu_die_offset u \<le> offset d \<and> agrees P (tu_die_offset u) d \<and> terminator_ok P u d)"

text \<open>
  From one state to a later one the header stays, objects are only added, and the parsed
  fields of an object do not change.
\<close>

definition same_entry :: "DIE \<Rightarrow> DIE \<Rightarrow> bool" where
  "same_entry d d' \<longleftrightarrow>
     offset d' = offset d \<and> tag d' = tag d \<and> has_children d' = has_children d \<and>
     die_size d' = die_size d \<and> attributes d' = attributes d"

definition grows :: "TypeUnit \<Rightarrow> TypeUnit \<Rightarrow> bool" where
  "grows u u' \<longleftrightarrow>
     same_unit u u' \<and> length (objects u) \<le> length (objects u') \<and>
     (\<forall>r<length (objects u). same_entry (objects u ! r) (objects u' ! r))"

text \<open>The offsets of the values an enumeration produced.\<close>

definition offsets_of :: "TypeUnit \<Rightarrow> ref option list \<Rightarrow> int option list" where
  "offsets_of u ys = map (map_option (\<lambda>r. offset (objects u ! r))) ys"

definition valid_refs :: "TypeUnit \<Rightarrow> ref option list \<Rightarrow> bool" where
  "valid_refs u ys = list_all (\<lambda>y. case y of None \<Rightarrow> False | Some r \<Rightarrow> r < length (objects u)) ys"

text \<open>
  No entry at the offsets \<open>es\<close> is replaced by its import during an enumeration: no
  supplementary debugging information is configured, or none of these entries is an
  imported unit.
\<close>

definition imported_unit_at :: "parser \<Rightarrow> int \<Rightarrow> bool" where
  "imported_unit_at P off =
     (case P off of
        Inr (Entry tg hc sz ats) \<Rightarrow> tg = ''DW_TAG_imported_unit''
      | _ \<Rightarrow> False)"

definition imports_off :: "parser \<Rightarrow> TypeUnit \<Rightarrow> int list \<Rightarrow> bool" where
  "imports_off P u es \<longleftrightarrow>
     \<not> supplementary_dwarfinfo u \<or> (\<forall>off\<in>set es. \<not> imported_unit_at P off)"

text \<open>The same stream with every sibling shortcut removed.\<close>

definition strip_siblings :: "parser \<Rightarrow> parser" where
  "strip_siblings P off =
     (case P off of
        Inr (Entry tg hc sz ats) \<Rightarrow>
          Inr (Entry tg hc sz (filter (\<lambda>(name, a). name \<noteq> ''DW_AT_sibling'') ats))
      | r \<Rightarrow> r)"

text \<open>The unit keeps its header and a cache in ascending order, whatever the stream holds.\<close>

definition kept :: "TypeUnit \<Rightarrow> TypeUnit \<Rightarrow> bool" where
  "kept u0 u \<longleftrightarrow> cache_sorted u \<and> same_unit u0 u"

text \<open>The offsets of what a run produced, when it returned.\<close>

definition enumerated_offsets :: "(ref option list) run \<Rightarrow> (exn + int option list) option" where
  "enumerated_offsets res = map_option (\<lambda>(r, v). map_sum id (offsets_of v) r) res"

section \<open>Example units\<close>

text \<open>
  The round-trip scenario of the specification: a unit whose header takes 23 bytes, entry A
  (has children, one attribute of a fixed-width form) at offset 23, its child B at 28, the
  null terminator at 29, the unit ending at 30. Every other offset does not decode.
\<close>

definition example_parser :: parser where
  "example_parser off =
     (if off = 23 then
        Inr (Entry ''A'' True 5 [(''DW_AT_byte_size'', \<lparr>form = ''DW_FORM_data4'', attr_value = 8\<rparr>)])
      else if off = 28 then Inr (Entry ''B'' False 1 [])
      else if off = 29 then Inr (Null 1)
      else Inl DWARFError)"

definition example_unit :: TypeUnit where
  "example_unit = TypeUnit_init 26 4 False 0 23"

definition no_import :: importer where
  "no_import die u = (Inl NotImplementedError, u)"

text \<open>The example unit after its top DIE has been parsed and cached.\<close>

definition example_top_cached :: TypeUnit where
  "example_top_cached =
     example_unit\<lparr>dielist := [0], diemap := [23],
       objects := [\<lparr>offset = 23, tag = Some ''A'', has_children = True, die_size = 5,
                    attributes = [(''DW_AT_byte_size'', \<lparr>form = ''DW_FORM_data4'', attr_value = 8\<rparr>)],
                    terminator = None, parent = None\<rparr>]\<rparr>"

text \<open>... and after its child B has been looked up.\<close>

definition example_two_cached :: TypeUnit where
  "example_two_cached =
     example_unit\<lparr>dielist := [0, 1], diemap := [23, 28],
       objects := [\<lparr>offset = 23, tag = Some ''A'', has_children = True, die_size = 5,
                    attributes = [(''DW_AT_byte_size'', \<lparr>form = ''DW_FORM_data4'', attr_value = 8\<rparr>)],
                    terminator = None, parent = None\<rparr>,
                   \<lparr>offset = 28, tag = Some ''B'', has_children = False, die_size = 1,
                    attributes = [], terminator = None, parent = None\<rparr>]\<rparr>"

text \<open>A unit whose entry at 28 has children and a sibling attribute in a form that is no reference.\<close>

definition sibling_example_parser :: parser where
  "sibling_example_parser off =
     (if off = 23 then Inr (Entry ''DW_TAG_type_unit'' True 5 [])
      else if off = 28 then
        Inr (Entry ''DW_TAG_structure_type'' True 6
               [(''DW_AT_sibling'', \<lparr>form = ''DW_FORM_data4'', attr_value = 40\<rparr>)])
      else Inl DWARFError)"

text \<open>
  A unit at offset 64 whose top DIE (at 87) has two children: a structure (at 92) with one
  member and a sibling shortcut in a unit-relative form, pointing at the base type at 101.
\<close>

definition shortcut_parser :: parser where
  "shortcut_parser off =
     (if off = 87 then Inr (Entry ''DW_TAG_type_unit'' True 5 [])
      else if off = 92 then
        Inr (Entry ''DW_TAG_structure_type'' True 6
               [(''DW_AT_sibling'', \<lparr>form = ''DW_FORM_ref4'', attr_value = 37\<rparr>)])
      else if off = 98 then Inr (Entry ''DW_TAG_member'' False 2 [])
      else if off = 100 then Inr (Null 1)
      else if off = 101 then Inr (Entry ''DW_TAG_base_type'' False 3 [])
      else if off = 104 then Inr (Null 1)
      else Inl DWARFError)"

definition shortcut_unit :: TypeUnit where
  "shortcut_unit = TypeUnit_init 37 4 False 64 87"

definition shortcut_child_cached :: TypeUnit where
  "shortcut_child_cached = snd (get_cached_DIE shortcut_parser Inr shortcut_unit 92)"

text \<open>The same unit with the shortcut of the structure in the absolute form.\<close>

definition absolute_shortcut_parser :: parser where
  "absolute_shortcut_parser off =
     (if off = 92 then
        Inr (Entry ''DW_TAG_structure_type'' True 6
               [(''DW_AT_sibling'', \<lparr>form = ''DW_FORM_ref_addr'', attr_value = 101\<rparr>)])
      else shortcut_parser off)"

definition sibling_example_cached :: TypeUnit where
  "sibling_example_cached = snd (get_cached_DIE sibling_example_parser Inr example_unit 28)"

text \<open>
  A unit whose structure at 28 (no children of its own, its list ending at 34) carries a
  sibling attribute in the absolute form that points before the unit's top DIE, to offset
  5, where a base type and then a null entry decode.
\<close>

definition stray_sibling_parser :: parser where
  "stray_sibling_parser off =
     (if off = 23 then Inr (Entry ''DW_TAG_type_unit'' True 5 [])
      else if off = 28 then
        Inr (Entry ''DW_TAG_structure_type'' True 6
               [(''DW_AT_sibling'', \<lparr>form = ''DW_FORM_ref_addr'', attr_value = 5\<rparr>)])
      else if off = 34 then Inr (Null 1)
      else if off = 5 then Inr (Entry ''DW_TAG_base_type'' False 1 [])
      else if off = 6 then Inr (Null 1)
      else Inl DWARFError)"

text \<open>
  A unit, with supplementary debugging information configured, whose top DIE has two
  children: an imported unit at 28 whose import refers to offset 33, and a base type at 33.
\<close>

definition import_parser :: parser where
  "import_parser off =
     (if off = 23 then Inr (Entry ''DW_TAG_type_unit'' True 5 [])
      else if off = 28 then
        Inr (Entry ''DW_TAG_imported_unit'' False 5
               [(''DW_AT_import'', \<lparr>form = ''DW_FORM_ref4'', attr_value = 33\<rparr>)])
      else if off = 33 then Inr (Entry ''DW_TAG_base_type'' False 1 [])
      else if off = 34 then Inr (Null 1)
      else Inl DWARFError)"

definition import_unit :: TypeUnit where
  "import_unit = TypeUnit_init 31 4 True 0 23"

section \<open>Binary search and list insertion\<close>

lemma bisect_right_loop_correct:
  assumes "sorted a" "lo \<le> hi" "hi \<le> length a"
    and "\<forall>k<lo. a ! k \<le> x" and "\<forall>k. hi \<le> k \<and> k < length a \<longrightarrow> x < a ! k"
  shows "lo \<le> bisect_right_loop a x lo hi \<and> bisect_right_loop a x lo hi \<le> hi \<and>
         (\<forall>k<bisect_right_loop a x lo hi. a ! k \<le> x) \<and>
         (\<forall>k. bisect_right_loop a x lo hi \<le> k \<and> k < length a \<longrightarrow> x < a ! k)"
  using assms
proof (induction a x lo hi rule: bisect_right_loop.induct)
  case (1 a x lo hi)
  show ?case
  proof (cases "lo < hi")
    case False
    then have "bisect_right_loop a x lo hi = lo"
      by (simp add: bisect_right_loop.simps [of a x lo hi])
    with False "1.prems" show ?thesis by simp
  next
    case True
    define mid where "mid = (lo + hi) div 2"
    have mid: "lo \<le> mid" "mid < hi" using True by (auto simp: mid_def)
    show ?thesis
    proof (cases "x < a ! mid")
      case lt: True
      have up: "\<forall>k. mid \<le> k \<and> k < length a \<longrightarrow> x < a ! k"
      proof (intro allI impI)
        fix k assume k: "mid \<le> k \<and> k < length a"
        then have "a ! mid \<le> a ! k" using \<open>sorted a\<close> by (simp add: sorted_nth_mono)
        with lt show "x < a ! k" by simp
      qed
      have eq: "bisect_right_loop a x lo hi = bisect_right_loop a x lo mid"
        using True lt by (simp add: bisect_right_loop.simps [of a x lo hi] mid_def Let_def)
      have "lo \<le> bisect_right_loop a x lo mid \<and> bisect_right_loop a x lo mid \<le> mid \<and>
         (\<forall>k<bisect_right_loop a x lo mid. a ! k \<le> x) \<and>
         (\<forall>k. bisect_right_loop a x lo mid \<le> k \<and> k < length a \<longrightarrow> x < a ! k)"
        using "1.IH"(1) [OF True mid_def lt \<open>sorted a\<close>] mid "1.prems"(3,4) up by simp
      with eq mid show ?thesis by auto
    next
      case ge: False
      have low: "\<forall>k<mid + 1. a ! k \<le> x"
      proof (intro allI impI)
        fix k assume k: "k < mid + 1"
        then have "a ! k \<le> a ! mid" using \<open>sorted a\<close> mid "1.prems"(3)
          by (simp add: sorted_nth_mono)
        with ge show "a ! k \<le> x" by simp
      qed
      have eq: "bisect_right_loop a x lo hi = bisect_right_loop a x (mid + 1) hi"
        using True ge by (simp add: bisect_right_loop.simps [of a x lo hi] mid_def Let_def)
      have "mid + 1 \<le> bisect_right_loop a x (mid + 1) hi \<and> bisect_right_loop a x (mid + 1) hi \<le> hi \<and>
         (\<forall>k<bisect_right_loop a x (mid + 1) hi. a ! k \<le> x) \<and>
         (\<forall>k. bisect_right_loop a x (mid + 1) hi \<le> k \<and> k < length a \<longrightarrow> x < a ! k)"
        using "1.IH"(2) [OF True mid_def ge \<open>sorted a\<close>] mid "1.prems"(3,5) low by simp
      with eq mid show ?thesis by auto
    qed
  qed
qed

lemma bisect_right_le: "sorted a \<Longrightarrow> bisect_right a x \<le> length a"
  using bisect_right_loop_correct [of a 0 "length a" x] by (simp add: bisect_right_def)

lemma bisect_right_below: "sorted a \<Longrightarrow> k < bisect_right a x \<Longrightarrow> a ! k \<le> x"
  using bisect_right_loop_correct [of a 0 "length a" x] by (simp add: bisect_right_def)

lemma bisect_right_above:
  "sorted a \<Longrightarrow> bisect_right a x \<le> k \<Longrightarrow> k < length a \<Longrightarrow> x < a ! k"
  using bisect_right_loop_correct [of a 0 "length a" x] by (simp add: bisect_right_def)

subsection \<open>Lists\<close>

lemma length_list_insert [simp]: "length (list_insert xs i x) = Suc (length xs)"
  by (simp add: list_insert_def)

lemma set_list_insert [simp]: "set (list_insert xs i x) = insert x (set xs)"
proof -
  have "set (take i xs) \<union> set (drop i xs) = set xs"
    by (metis append_take_drop_id set_append)
  then show ?thesis by (auto simp: list_insert_def)
qed

lemma list_insert_Nil [simp]: "list_insert [] i x = [x]"
  by (simp add: list_insert_def)

lemma list_insert_0 [simp]: "list_insert xs 0 x = x # xs"
  by (simp add: list_insert_def)

lemma nth_list_insert:
  assumes "i \<le> length xs"
  shows "list_insert xs i x ! k = (if k < i then xs ! k else if k = i then x else xs ! (k - 1))"
proof -
  have l: "length (take i xs) = i" using assms by simp
  show ?thesis
  proof (cases "k < i")
    case True
    then show ?thesis using assms by (simp add: list_insert_def nth_append l)
  next
    case False
    show ?thesis
    proof (cases "k = i")
      case True
      then show ?thesis using assms by (simp add: list_insert_def nth_append min_def)
    next
      case ne: False
      with False obtain j where j: "k = Suc (i + j)"
        by (metis add_Suc_right le_add_diff_inverse le_neq_implies_less less_iff_Suc_add not_less)
      then show ?thesis using assms by (simp add: list_insert_def nth_append min_def)
    qed
  qed
qed

lemma list_all2_list_insert:
  assumes "list_all2 R xs ys" "R x y"
  shows "list_all2 R (list_insert xs i x) (list_insert ys i y)"
  unfolding list_insert_def
  using assms by (intro list_all2_appendI list_all2_takeI) (simp_all add: list_all2_dropI)

lemma py_index_0: "xs \<noteq> [] \<Longrightarrow> py_index xs 0 = Inr (xs ! 0)"
  by (simp add: py_index_def)

lemma py_index_pred:
  assumes "1 \<le> i" "i \<le> length xs"
  shows "py_index xs (int i - 1) = Inr (xs ! (i - 1))"
proof -
  have "nat (int i - 1) = i - 1" by simp
  moreover have "\<not> int i - 1 < 0" "int i - 1 < int (length xs)" using assms by linarith+
  ultimately show ?thesis by (simp add: py_index_def Let_def)
qed

lemma py_index_minus_one:
  assumes "xs \<noteq> []"
  shows "py_index xs (int 0 - 1) = Inr (last xs)"
proof -
  have "nat (int (length xs) + (- 1)) = length xs - 1" by simp
  then show ?thesis using assms by (simp add: py_index_def Let_def last_conv_nth)
qed

subsection \<open>The insertion point\<close>

lemma strict_sorted_sorted: "sorted_wrt (<) (a :: int list) \<Longrightarrow> sorted a"
  by (rule sorted_wrt_mono_rel [of a "(<)"]) auto

lemma bisect_right_hit:
  assumes "sorted_wrt (<) a" "k < length a"
  shows "bisect_right a (a ! k) = Suc k"
proof -
  let ?i = "bisect_right a (a ! k)"
  have s: "sorted a" using assms(1) by (rule strict_sorted_sorted)
  have "\<not> ?i \<le> k" using bisect_right_above [OF s, of "a ! k" k] assms(2) by auto
  moreover have "\<not> Suc k < ?i"
  proof
    assume lt: "Suc k < ?i"
    have "?i \<le> length a" using s by (rule bisect_right_le)
    with lt have "a ! k < a ! Suc k" using assms(1) by (simp add: sorted_wrt_nth_less)
    moreover have "a ! Suc k \<le> a ! k" using bisect_right_below [OF s lt] .
    ultimately show False by simp
  qed
  ultimately show ?thesis by simp
qed

lemma bisect_right_ge_1:
  assumes "sorted a" "a \<noteq> []" "a ! 0 \<le> x"
  shows "1 \<le> bisect_right a x"
proof (rule ccontr)
  assume "\<not> 1 \<le> bisect_right a x"
  then have "bisect_right a x \<le> 0" by simp
  then have "x < a ! 0" using bisect_right_above [OF assms(1), of x 0] assms(2) by simp
  with assms(3) show False by simp
qed

lemma sorted_list_insert:
  assumes "sorted_wrt (<) a" "x \<notin> set a"
  shows "sorted_wrt (<) (list_insert a (bisect_right a x) x)"
proof -
  let ?i = "bisect_right a x"
  have s: "sorted a" using assms(1) by (rule strict_sorted_sorted)
  have i: "?i \<le> length a" using s by (rule bisect_right_le)
  have lo: "y < x" if "y \<in> set (take ?i a)" for y
  proof -
    from that obtain k where k: "k < ?i" "k < length a" "y = a ! k"
      by (auto simp: in_set_conv_nth)
    then have "y \<le> x" using bisect_right_below [OF s, of k x] by simp
    moreover have "y \<noteq> x" using k assms(2) by auto
    ultimately show ?thesis by simp
  qed
  have hi: "x < y" if "y \<in> set (drop ?i a)" for y
  proof -
    from that obtain k where k: "k < length a - ?i" "y = a ! (?i + k)"
      by (auto simp: in_set_conv_nth)
    then show ?thesis using bisect_right_above [OF s, of x "?i + k"] by simp
  qed
  have "sorted_wrt (<) (take ?i a @ drop ?i a)" using assms(1) by simp
  then have "sorted_wrt (<) (take ?i a)" "sorted_wrt (<) (drop ?i a)"
    and cross: "\<forall>y\<in>set (take ?i a). \<forall>z\<in>set (drop ?i a). y < z"
    unfolding sorted_wrt_append by auto
  then show ?thesis
    unfolding list_insert_def sorted_wrt_append using lo hi by auto
qed

lemma py_index_bisect_miss:
  assumes "sorted a" "a \<noteq> []" "x \<notin> set a"
  shows "\<exists>m. py_index a (int (bisect_right a x) - 1) = Inr m \<and> m \<noteq> x"
proof (cases "bisect_right a x")
  case 0
  then have "py_index a (int (bisect_right a x) - 1) = Inr (last a)"
    using py_index_minus_one [OF assms(2)] by simp
  moreover have "last a \<noteq> x" using assms(2,3) last_in_set by metis
  ultimately show ?thesis by blast
next
  case (Suc j)
  have i: "bisect_right a x \<le> length a" using assms(1) by (rule bisect_right_le)
  then have "py_index a (int (bisect_right a x) - 1) = Inr (a ! (bisect_right a x - 1))"
    using Suc by (intro py_index_pred) simp_all
  moreover have "a ! (bisect_right a x - 1) \<noteq> x"
    using assms(3) i Suc by (metis Suc_le_lessD diff_Suc_1 nth_mem)
  ultimately show ?thesis by blast
qed

section \<open>Properties of the cache operations\<close>

subsection \<open>Objects and the cache\<close>

lemma DIE_init_fields:
  assumes "DIE_init P off = Inr d"
  shows "offset d = off" "terminator d = None" "parent d = None"
  using assms by (auto simp: DIE_init_def split: sum.splits parsed.splits)

lemma cache_sorted_length: "cache_sorted u \<Longrightarrow> length (dielist u) = length (diemap u)"
  by (auto simp: cache_sorted_def dest: list_all2_lengthD)

lemma cache_sorted_nth:
  assumes "cache_sorted u" "k < length (diemap u)"
  shows "dielist u ! k < length (objects u)" "offset (objects u ! (dielist u ! k)) = diemap u ! k"
  using assms by (auto simp: cache_sorted_def list_all2_conv_all_nth)

lemma cache_sorted_init: "cache_sorted (TypeUnit_init l w s a b)"
  by (simp add: cache_sorted_def TypeUnit_init_def)

lemma cache_sorted_insert:
  assumes "cache_sorted u" "off \<notin> set (diemap u)" "offset d = off"
  shows "cache_sorted (u\<lparr>dielist := list_insert (dielist u) (bisect_right (diemap u) off) (length (objects u)),
                         diemap := list_insert (diemap u) (bisect_right (diemap u) off) off,
                         objects := objects u @ [d]\<rparr>)"
proof -
  let ?R = "\<lambda>os r off. r < length os \<and> offset (os ! r) = off"
  have "list_all2 (?R (objects u)) (dielist u) (diemap u)"
    using assms(1) by (simp add: cache_sorted_def)
  then have "list_all2 (?R (objects u @ [d])) (dielist u) (diemap u)"
    by (rule list_all2_mono) (auto simp: nth_append)
  moreover have "?R (objects u @ [d]) (length (objects u)) off"
    using assms(3) by simp
  ultimately have "list_all2 (?R (objects u @ [d]))
      (list_insert (dielist u) (bisect_right (diemap u) off) (length (objects u)))
      (list_insert (diemap u) (bisect_right (diemap u) off) off)"
    by (rule list_all2_list_insert)
  moreover have "sorted_wrt (<) (list_insert (diemap u) (bisect_right (diemap u) off) off)"
    using assms(1,2) by (intro sorted_list_insert) (simp_all add: cache_sorted_def)
  ultimately show ?thesis by (simp add: cache_sorted_def)
qed

lemma cache_sorted_update:
  assumes "cache_sorted u" "offset d = offset (objects u ! r)"
  shows "cache_sorted (u\<lparr>objects := (objects u)[r := d]\<rparr>)"
proof -
  have "list_all2 (\<lambda>r off. r < length (objects u) \<and> offset (objects u ! r) = off) (dielist u) (diemap u)"
    using assms(1) by (simp add: cache_sorted_def)
  then have "list_all2 (\<lambda>q off. q < length ((objects u)[r := d]) \<and> offset ((objects u)[r := d] ! q) = off)
      (dielist u) (diemap u)"
  proof (rule list_all2_mono)
    fix q off
    assume "q < length (objects u) \<and> offset (objects u ! q) = off"
    then show "q < length ((objects u)[r := d]) \<and> offset ((objects u)[r := d] ! q) = off"
      using assms(2) by (cases "q = r") auto
  qed
  then show ?thesis using assms(1) by (simp add: cache_sorted_def)
qed

subsection \<open>The top DIE\<close>

lemma get_top_DIE_cached:
  assumes "cache_sorted u" "diemap u \<noteq> []"
  shows "get_top_DIE P T u = (Inr (dielist u ! 0), u)"
proof -
  have "dielist u \<noteq> []" using assms cache_sorted_length [of u] by auto
  then show ?thesis using assms(2) by (simp add: get_top_DIE_def py_index_0)
qed

lemma get_top_DIE_empty:
  assumes "diemap u = []"
  shows "get_top_DIE P T u =
     (case DIE_init P (tu_die_offset u) of
        Inl e \<Rightarrow> (Inl e, u)
      | Inr d \<Rightarrow>
          (case T (attributes d) of
             Inl e \<Rightarrow> (Inl e, u\<lparr>dielist := length (objects u) # dielist u,
                                 diemap := [tu_die_offset u], objects := objects u @ [d]\<rparr>)
           | Inr ats \<Rightarrow> (Inr (length (objects u)),
                          u\<lparr>dielist := length (objects u) # dielist u,
                            diemap := [tu_die_offset u],
                            objects := objects u @ [d\<lparr>attributes := ats\<rparr>]\<rparr>)))"
  using assms by (simp add: get_top_DIE_def Let_def split: sum.splits)

lemma get_top_DIE_same_unit: "get_top_DIE P T u = (res, u') \<Longrightarrow> same_unit u u'"
  by (auto simp: get_top_DIE_def same_unit_def Let_def split: sum.splits if_splits)

lemma get_top_DIE_sorted:
  assumes "cache_sorted u" "get_top_DIE P T u = (res, u')"
  shows "cache_sorted u'"
proof (cases "diemap u = []")
  case False
  with assms show ?thesis by (simp add: get_top_DIE_cached)
next
  case True
  then have dl: "dielist u = []" using assms(1) cache_sorted_length [of u] by simp
  have ins: "cache_sorted (u\<lparr>dielist := [length (objects u)], diemap := [tu_die_offset u],
                             objects := objects u @ [d]\<rparr>)"
    if "offset d = tu_die_offset u" for d
    using that by (simp add: cache_sorted_def)
  show ?thesis
    using assms True dl ins
    by (auto simp: get_top_DIE_empty dest: DIE_init_fields(1) split: sum.splits)
qed

lemma get_top_DIE_top_first:
  assumes "top_first u" "get_top_DIE P T u = (res, u')"
  shows "top_first u'"
  using assms
  by (auto simp: get_top_DIE_def top_first_def Let_def split: sum.splits if_splits)

lemma get_top_DIE_nonempty:
  assumes "get_top_DIE P T u = (Inr r, u')"
  shows "diemap u' \<noteq> []"
  using assms
  by (auto simp: get_top_DIE_def Let_def split: sum.splits if_splits)

subsection \<open>Cached lookup\<close>

lemma get_cached_DIE_hit:
  assumes "cache_sorted u" "k < length (diemap u)"
  shows "get_cached_DIE P T u (diemap u ! k) = (Inr (dielist u ! k), u)"
proof -
  have ne: "diemap u \<noteq> []" using assms(2) by auto
  have s: "sorted_wrt (<) (diemap u)" using assms(1) by (simp add: cache_sorted_def)
  have i: "bisect_right (diemap u) (diemap u ! k) = Suc k"
    using s assms(2) by (rule bisect_right_hit)
  have "py_index (diemap u) (int (Suc k) - 1) = Inr (diemap u ! (Suc k - 1))"
    using assms(2) by (intro py_index_pred) simp_all
  moreover have "py_index (dielist u) (int (Suc k) - 1) = Inr (dielist u ! (Suc k - 1))"
    using assms cache_sorted_length [of u] by (intro py_index_pred) simp_all
  ultimately show ?thesis
    using i by (simp add: get_cached_DIE_def get_top_DIE_cached [OF assms(1) ne] del: of_nat_Suc)
qed

lemma get_cached_DIE_miss:
  assumes "cache_sorted u" "diemap u \<noteq> []" "off \<notin> set (diemap u)"
  shows "get_cached_DIE P T u off =
     (case DIE_init P off of
        Inl e \<Rightarrow> (Inl e, u)
      | Inr d \<Rightarrow>
          (Inr (length (objects u)),
           u\<lparr>dielist := list_insert (dielist u) (bisect_right (diemap u) off) (length (objects u)),
             diemap := list_insert (diemap u) (bisect_right (diemap u) off) off,
             objects := objects u @ [d]\<rparr>))"
proof -
  have s: "sorted (diemap u)" using assms(1) by (simp add: cache_sorted_def strict_sorted_sorted)
  obtain m where m: "py_index (diemap u) (int (bisect_right (diemap u) off) - 1) = Inr m" "m \<noteq> off"
    using py_index_bisect_miss [OF s assms(2,3)] by blast
  then show ?thesis
    by (simp add: get_cached_DIE_def get_top_DIE_cached [OF assms(1,2)] Let_def)
qed

lemma get_cached_DIE_via_top:
  "get_cached_DIE P T u off =
     (case get_top_DIE P T u of
        (Inl e, u1) \<Rightarrow> (Inl e, u1)
      | (Inr r, u1) \<Rightarrow> get_cached_DIE P T u1 off)" if "cache_sorted u"
proof (cases "get_top_DIE P T u")
  case (Pair res u1)
  show ?thesis
  proof (cases res)
    case (Inl e)
    with Pair show ?thesis by (simp add: get_cached_DIE_def)
  next
    case (Inr r)
    have "cache_sorted u1" using that Pair by (rule get_top_DIE_sorted)
    moreover have "diemap u1 \<noteq> []" using Pair Inr get_top_DIE_nonempty by blast
    ultimately have "get_top_DIE P T u1 = (Inr (dielist u1 ! 0), u1)"
      by (rule get_top_DIE_cached)
    then show ?thesis using Pair Inr by (simp add: get_cached_DIE_def)
  qed
qed

section \<open>Lookup results and navigation fields\<close>

lemma get_cached_DIE_sorted:
  assumes "cache_sorted u" "get_cached_DIE P T u off = (res, u')"
  shows "cache_sorted u'"
proof -
  have step: "cache_sorted v'"
    if "cache_sorted v" "diemap v \<noteq> []" "get_cached_DIE P T v off = (res, v')" for v v'
  proof (cases "off \<in> set (diemap v)")
    case True
    then obtain k where "k < length (diemap v)" "diemap v ! k = off"
      by (auto simp: in_set_conv_nth)
    then have "get_cached_DIE P T v off = (Inr (dielist v ! k), v)"
      using get_cached_DIE_hit [OF that(1), of k P T] by simp
    with that show ?thesis by simp
  next
    case False
    show ?thesis
    proof (cases "DIE_init P off")
      case (Inl e)
      with that False show ?thesis by (simp add: get_cached_DIE_miss)
    next
      case (Inr d)
      then have "offset d = off" by (rule DIE_init_fields)
      from cache_sorted_insert [OF that(1) False this] that False Inr
      show ?thesis by (auto simp: get_cached_DIE_miss)
    qed
  qed
  obtain r1 u1 where top: "get_top_DIE P T u = (r1, u1)" by (cases "get_top_DIE P T u")
  have cs1: "cache_sorted u1" using assms(1) top by (rule get_top_DIE_sorted)
  show ?thesis
  proof (cases r1)
    case (Inl e)
    with assms top cs1 show ?thesis by (simp add: get_cached_DIE_via_top)
  next
    case (Inr tp)
    then have "diemap u1 \<noteq> []" using top get_top_DIE_nonempty by blast
    moreover have "get_cached_DIE P T u1 off = (res, u')"
      using assms top Inr by (simp add: get_cached_DIE_via_top)
    ultimately show ?thesis using cs1 step by blast
  qed
qed

lemma get_cached_DIE_same_unit: "get_cached_DIE P T u off = (res, u') \<Longrightarrow> same_unit u u'"
  by (auto simp: get_cached_DIE_def Let_def same_unit_def
      dest!: get_top_DIE_same_unit split: sum.splits prod.splits if_splits)

text \<open>What a successful lookup returns, on a unit whose cache holds the top DIE.\<close>

lemma get_cached_DIE_new:
  assumes "cache_sorted u" "diemap u \<noteq> []" "off \<notin> set (diemap u)"
    and "get_cached_DIE P T u off = (Inr r, u')"
  shows "r = length (objects u)"
    and "\<exists>d. DIE_init P off = Inr d \<and> objects u' = objects u @ [d]"
    and "diemap u' = list_insert (diemap u) (bisect_right (diemap u) off) off"
    and "dielist u' = list_insert (dielist u) (bisect_right (diemap u) off) r"
  using assms(4) by (auto simp: get_cached_DIE_miss [OF assms(1-3)] split: sum.splits)

lemma get_cached_DIE_result:
  assumes "cache_sorted u" "get_cached_DIE P T u off = (Inr r, u')"
  shows "\<exists>k<length (diemap u'). diemap u' ! k = off \<and> dielist u' ! k = r"
proof -
  have step: "\<exists>k<length (diemap v'). diemap v' ! k = off \<and> dielist v' ! k = r"
    if "cache_sorted v" "diemap v \<noteq> []" "get_cached_DIE P T v off = (Inr r, v')" for v v'
  proof (cases "off \<in> set (diemap v)")
    case True
    then obtain k where k: "k < length (diemap v)" "diemap v ! k = off"
      by (auto simp: in_set_conv_nth)
    then have "get_cached_DIE P T v off = (Inr (dielist v ! k), v)"
      using get_cached_DIE_hit [OF that(1), of k P T] by simp
    with that k show ?thesis by auto
  next
    case False
    let ?i = "bisect_right (diemap v) off"
    have i: "?i \<le> length (diemap v)"
      using that(1) by (intro bisect_right_le) (simp add: cache_sorted_def strict_sorted_sorted)
    have len: "length (dielist v) = length (diemap v)" using that(1) by (rule cache_sorted_length)
    have "diemap v' ! ?i = off" "dielist v' ! ?i = r" "length (diemap v') = Suc (length (diemap v))"
      using get_cached_DIE_new(3,4) [OF that(1,2) False that(3)] i len
      by (simp_all add: nth_list_insert)
    with i show ?thesis by (intro exI [of _ ?i]) simp
  qed
  obtain r1 u1 where top: "get_top_DIE P T u = (r1, u1)" by (cases "get_top_DIE P T u")
  have cs1: "cache_sorted u1" using assms(1) top by (rule get_top_DIE_sorted)
  show ?thesis
  proof (cases r1)
    case (Inl e)
    with assms top show ?thesis by (simp add: get_cached_DIE_via_top)
  next
    case (Inr tp)
    then have "diemap u1 \<noteq> []" using top get_top_DIE_nonempty by blast
    moreover have "get_cached_DIE P T u1 off = (Inr r, u')"
      using assms top Inr by (simp add: get_cached_DIE_via_top)
    ultimately show ?thesis using cs1 step by blast
  qed
qed

lemma get_cached_DIE_valid:
  assumes "cache_sorted u" "get_cached_DIE P T u off = (Inr r, u')"
  shows "r < length (objects u')" "offset (objects u' ! r) = off"
proof -
  have cs: "cache_sorted u'" using assms by (rule get_cached_DIE_sorted)
  obtain k where "k < length (diemap u')" "diemap u' ! k = off" "dielist u' ! k = r"
    using get_cached_DIE_result [OF assms] by blast
  then show "r < length (objects u')" "offset (objects u' ! r) = off"
    using cache_sorted_nth [OF cs, of k] by auto
qed

lemma get_top_DIE_objects: 
  assumes "get_top_DIE P T u = (res, u')"
  shows "length (objects u) \<le> length (objects u')"
  using assms by (auto simp: get_top_DIE_def Let_def split: sum.splits if_splits)

lemma get_cached_DIE_fresh:
  assumes "cache_sorted u" "off \<notin> set (diemap u)" "get_cached_DIE P T u off = (Inr r, u')"
  shows "length (objects u) \<le> r"
proof (cases "diemap u = []")
  case False
  then show ?thesis using get_cached_DIE_new(1) [OF assms(1) False assms(2,3)] by simp
next
  case True
  obtain r1 u1 where top: "get_top_DIE P T u = (r1, u1)" by (cases "get_top_DIE P T u")
  then obtain tp where r1: "r1 = Inr tp"
    using assms by (cases r1) (simp_all add: get_cached_DIE_via_top)
  have cs1: "cache_sorted u1" using assms(1) top by (rule get_top_DIE_sorted)
  have ne: "diemap u1 \<noteq> []" using top r1 get_top_DIE_nonempty by blast
  have g: "get_cached_DIE P T u1 off = (Inr r, u')"
    using assms top r1 by (simp add: get_cached_DIE_via_top)
  have l: "length (objects u) \<le> length (objects u1)" using top by (rule get_top_DIE_objects)
  have tpv: "tp = length (objects u)" "dielist u1 = [tp]" "diemap u1 = [tu_die_offset u]"
    using top r1 True assms(1) cache_sorted_length [of u]
    by (auto simp: get_top_DIE_empty split: sum.splits)
  show ?thesis
  proof (cases "off \<in> set (diemap u1)")
    case True
    then have "off = diemap u1 ! 0" using tpv by simp
    then have "get_cached_DIE P T u1 off = (Inr (dielist u1 ! 0), u1)"
      using get_cached_DIE_hit [OF cs1, of 0 P T] ne by simp
    with g tpv show ?thesis by simp
  next
    case False
    then show ?thesis using get_cached_DIE_new(1) [OF cs1 ne False g] l by simp
  qed
qed

declare iter_DIE_children.simps [simp del] children_loop.simps [simp del]
  next_cur_offset.simps [simp del]

lemma nth_set_parent:
  "objects (set_parent c d u) ! r =
     (if c < length (objects u) \<and> r = c then (objects u ! r)\<lparr>parent := Some d\<rparr>
      else objects u ! r)"
proof (cases "c < length (objects u)")
  case True
  then show ?thesis by (simp add: set_parent_def nth_list_update)
next
  case False
  then show ?thesis by (simp add: set_parent_def list_update_beyond)
qed

lemma nth_set_terminator:
  "objects (set_terminator d c u) ! r =
     (if d < length (objects u) \<and> r = d then (objects u ! r)\<lparr>terminator := Some c\<rparr>
      else objects u ! r)"
proof (cases "d < length (objects u)")
  case True
  then show ?thesis by (simp add: set_terminator_def nth_list_update)
next
  case False
  then show ?thesis by (simp add: set_terminator_def list_update_beyond)
qed

lemma set_parent_fields [simp]:
  "dielist (set_parent c d u) = dielist u" "diemap (set_parent c d u) = diemap u"
  "length (objects (set_parent c d u)) = length (objects u)"
  "tag (objects (set_parent c d u) ! r) = tag (objects u ! r)"
  "offset (objects (set_parent c d u) ! r) = offset (objects u ! r)"
  "has_children (objects (set_parent c d u) ! r) = has_children (objects u ! r)"
  "die_size (objects (set_parent c d u) ! r) = die_size (objects u ! r)"
  "attributes (objects (set_parent c d u) ! r) = attributes (objects u ! r)"
  "terminator (objects (set_parent c d u) ! r) = terminator (objects u ! r)"
  by (simp_all add: nth_set_parent) (simp_all add: set_parent_def)

lemma set_terminator_fields [simp]:
  "dielist (set_terminator d c u) = dielist u" "diemap (set_terminator d c u) = diemap u"
  "length (objects (set_terminator d c u)) = length (objects u)"
  "tag (objects (set_terminator d c u) ! r) = tag (objects u ! r)"
  "offset (objects (set_terminator d c u) ! r) = offset (objects u ! r)"
  "has_children (objects (set_terminator d c u) ! r) = has_children (objects u ! r)"
  "die_size (objects (set_terminator d c u) ! r) = die_size (objects u ! r)"
  "attributes (objects (set_terminator d c u) ! r) = attributes (objects u ! r)"
  "parent (objects (set_terminator d c u) ! r) = parent (objects u ! r)"
  by (simp_all add: nth_set_terminator) (simp_all add: set_terminator_def)

lemma set_parent_parent:
  "c < length (objects u) \<Longrightarrow> parent (objects (set_parent c d u) ! c) = Some d"
  by (simp add: set_parent_def)

lemma set_terminator_terminator:
  "d < length (objects u) \<Longrightarrow> terminator (objects (set_terminator d c u) ! d) = Some c"
  by (simp add: set_terminator_def)

lemma children_loop_Suc:
  "children_loop (Suc n) P T body die cur u =
     (case get_cached_DIE P T u cur of
        (Inl e, u1) \<Rightarrow> Some (Inl e, u1)
      | (Inr child, u1) \<Rightarrow>
          if tag (objects u1 ! child) = None
          then Some (Inr [], set_terminator die child (set_parent child die u1))
          else
            (case body child (set_parent child die u1) of
               None \<Rightarrow> None
             | Some (Inl e, u3) \<Rightarrow> Some (Inl e, u3)
             | Some (Inr ys, u3) \<Rightarrow>
                 (case next_cur_offset n P T child cur u3 of
                    None \<Rightarrow> None
                  | Some (Inl e, u4) \<Rightarrow> Some (Inl e, u4)
                  | Some (Inr cur', u4) \<Rightarrow>
                      (case children_loop n P T body die cur' u4 of
                         None \<Rightarrow> None
                       | Some (Inl e, u5) \<Rightarrow> Some (Inl e, u5)
                       | Some (Inr zs, u5) \<Rightarrow> Some (Inr (ys @ zs), u5)))))"
  by (simp add: children_loop.simps Let_def split: prod.splits sum.splits)

lemma get_cached_DIE_objects:
  assumes "get_cached_DIE P T u off = (res, u')"
  shows "length (objects u) \<le> length (objects u')"
  using assms get_top_DIE_objects
  by (fastforce simp: get_cached_DIE_def Let_def split: sum.splits prod.splits if_splits)

section \<open>The top DIE and the cached lookup\<close>

lemma example_get_top_DIE:
  "get_top_DIE example_parser Inr example_unit = (Inr 0, example_top_cached)"
  by (simp add: get_top_DIE_def example_unit_def TypeUnit_init_def DIE_init_def
      example_parser_def example_top_cached_def)

lemma unit_inv_init: "unit_inv (TypeUnit_init l w s a b)"
  by (simp add: unit_inv_def cache_sorted_def top_first_def TypeUnit_init_def)

lemma get_top_DIE_position_0:
  assumes "cache_sorted u" "get_top_DIE P T u = (Inr tp, u1)"
  shows "dielist u1 ! 0 = tp"
proof (cases "diemap u = []")
  case False
  with assms show ?thesis by (auto simp: get_top_DIE_cached)
next
  case True
  then have "dielist u = []" using assms(1) cache_sorted_length [of u] by simp
  with assms(2) True show ?thesis
    by (auto simp: get_top_DIE_empty split: sum.splits)
qed



text \<open>
  Claim C10. In \<open>_get_cached_DIE\<close>, when the invariant of the cache holds and
  \<open>offset \<ge> tu_die_offset\<close>: after the call of \<open>get_top_DIE\<close> the cache is not empty, the
  insertion point \<open>i\<close> of \<open>bisect_right\<close> is at least 1 and at most the length, so that
  \<open>_diemap[i - 1]\<close> and \<open>_dielist[i - 1]\<close> read position \<open>i - 1\<close> (never position
  \<open>-1\<close>, never out of range), and after the lookup the top DIE is still at position 0 of
  the cache.
\<close>

theorem cached_lookup_index_in_bounds:
  assumes "unit_inv u" "tu_die_offset u \<le> off" "get_top_DIE P T u = (Inr tp, u1)"
  shows "diemap u1 \<noteq> [] \<and>
         1 \<le> bisect_right (diemap u1) off \<and>
         bisect_right (diemap u1) off \<le> length (diemap u1) \<and>
         py_index (diemap u1) (int (bisect_right (diemap u1) off) - 1)
           = Inr (diemap u1 ! (bisect_right (diemap u1) off - 1)) \<and>
         py_index (dielist u1) (int (bisect_right (diemap u1) off) - 1)
           = Inr (dielist u1 ! (bisect_right (diemap u1) off - 1)) \<and>
         dielist u1 ! 0 = tp \<and>
         dielist (snd (get_cached_DIE P T u off)) ! 0 = tp \<and>
         diemap (snd (get_cached_DIE P T u off)) ! 0 = tu_die_offset u"
proof -
  let ?i = "bisect_right (diemap u1) off"
  have cs: "cache_sorted u" and tf: "top_first u" using assms(1) by (simp_all add: unit_inv_def)
  have cs1: "cache_sorted u1" using cs assms(3) by (rule get_top_DIE_sorted)
  have tf1: "top_first u1" using tf assms(3) by (rule get_top_DIE_top_first)
  have su: "same_unit u u1" using assms(3) by (rule get_top_DIE_same_unit)
  have ne: "diemap u1 \<noteq> []" using assms(3) by (rule get_top_DIE_nonempty)
  have s: "sorted (diemap u1)" using cs1 by (simp add: cache_sorted_def strict_sorted_sorted)
  have d0: "diemap u1 ! 0 = tu_die_offset u" using tf1 ne su by (simp add: top_first_def same_unit_def)
  have i1: "1 \<le> ?i" using s ne d0 assms(2) by (intro bisect_right_ge_1) simp_all
  have i2: "?i \<le> length (diemap u1)" using s by (rule bisect_right_le)
  have len: "length (dielist u1) = length (diemap u1)" using cs1 by (rule cache_sorted_length)
  have p1: "py_index (diemap u1) (int ?i - 1) = Inr (diemap u1 ! (?i - 1))"
    using i1 i2 by (rule py_index_pred)
  have p2: "py_index (dielist u1) (int ?i - 1) = Inr (dielist u1 ! (?i - 1))"
    using i1 i2 len by (intro py_index_pred) simp_all
  have t0: "dielist u1 ! 0 = tp" using cs assms(3) by (rule get_top_DIE_position_0)
  have after: "dielist (snd (get_cached_DIE P T u off)) ! 0 = tp \<and>
      diemap (snd (get_cached_DIE P T u off)) ! 0 = tu_die_offset u"
    using assms(3) p1 p2 t0 d0 i1 i2 len
    by (auto simp: get_cached_DIE_def Let_def nth_list_insert split: sum.splits)
  show ?thesis using ne i1 i2 p1 p2 t0 after by simp
qed

lemma example_top_cached_inv: "unit_inv example_top_cached"
  by (simp add: unit_inv_def cache_sorted_def top_first_def example_top_cached_def
      example_unit_def TypeUnit_init_def)

lemma example_get_top_DIE_again:
  "get_top_DIE example_parser Inr example_top_cached = (Inr 0, example_top_cached)"
  by (simp add: get_top_DIE_def example_top_cached_def py_index_def)

theorem cached_lookup_index_in_bounds_witness:
  "unit_inv example_top_cached \<and> tu_die_offset example_top_cached \<le> 28 \<and>
   get_top_DIE example_parser Inr example_top_cached = (Inr 0, example_top_cached) \<and>
   bisect_right (diemap example_top_cached) 28 = 1 \<and>
   dielist (snd (get_cached_DIE example_parser Inr example_top_cached 28)) ! 0 = 0"
proof -
  have h2: "tu_die_offset example_top_cached \<le> 28"
    by (simp add: example_top_cached_def example_unit_def TypeUnit_init_def)
  have l: "length (diemap example_top_cached) = 1"
    by (simp add: example_top_cached_def)
  show ?thesis
    using cached_lookup_index_in_bounds [OF example_top_cached_inv h2 example_get_top_DIE_again]
      example_top_cached_inv h2 example_get_top_DIE_again l
    by simp
qed

text \<open>
  Claim C2, as stated, fails: an offset out of the range of the unit raises \<open>DWARFError\<close>
  (what \<open>dwarf_assert\<close> raises), not RangeError. Here the offset is one byte before the
  top DIE of the example unit.
\<close>

theorem refaddr_out_of_range_counterexample:
  "get_DIE_from_refaddr example_parser Inr example_unit 22 = (Inl DWARFError, example_unit) \<and>
   fst (get_DIE_from_refaddr example_parser Inr example_unit 22) \<noteq> Inl RangeError"
  by (simp add: get_DIE_from_refaddr_def cu_die_offset_def example_unit_def TypeUnit_init_def)

text \<open>
  Claim C2, amended. \<open>get_DIE_from_refaddr\<close> raises \<open>DWARFError\<close>, and leaves the unit as
  it is, for every offset before the top DIE's offset and for every offset at or after
  \<open>tu_offset + size\<close>. At the top DIE's offset itself, when that offset lies before the end
  of the unit, it does what \<open>get_top_DIE\<close> does: it returns the top DIE when the top DIE
  parses.
\<close>

theorem refaddr_range_check:
  assumes "cache_sorted u"
  shows "(refaddr < tu_die_offset u \<or> tu_offset u + tu_size u \<le> refaddr \<longrightarrow>
            get_DIE_from_refaddr P T u refaddr = (Inl DWARFError, u)) \<and>
         (tu_die_offset u < tu_offset u + tu_size u \<and> top_first u \<longrightarrow>
            get_DIE_from_refaddr P T u (tu_die_offset u) = get_top_DIE P T u)"
proof -
  have "get_cached_DIE P T u (tu_die_offset u) = get_top_DIE P T u" if tf: "top_first u"
  proof (cases "get_top_DIE P T u")
    case (Pair res u1)
    show ?thesis
    proof (cases res)
      case (Inl e)
      with Pair show ?thesis by (simp add: get_cached_DIE_def)
    next
      case (Inr tp)
      have cs1: "cache_sorted u1" using assms Pair by (rule get_top_DIE_sorted)
      have ne: "diemap u1 \<noteq> []" using Pair Inr get_top_DIE_nonempty by blast
      have "top_first u1" using tf Pair by (rule get_top_DIE_top_first)
      moreover have "same_unit u u1" using Pair by (rule get_top_DIE_same_unit)
      ultimately have d0: "diemap u1 ! 0 = tu_die_offset u"
        using ne by (simp add: top_first_def same_unit_def)
      have "get_cached_DIE P T u1 (diemap u1 ! 0) = (Inr (dielist u1 ! 0), u1)"
        using cs1 ne by (intro get_cached_DIE_hit) simp_all
      moreover have "dielist u1 ! 0 = tp"
        using assms Pair Inr get_top_DIE_position_0 by blast
      ultimately show ?thesis
        using Pair Inr d0 by (simp add: get_cached_DIE_via_top [OF assms])
    qed
  qed
  then show ?thesis
    by (auto simp: get_DIE_from_refaddr_def cu_die_offset_def cu_offset_def)
qed

theorem refaddr_range_check_witness:
  "cache_sorted example_unit \<and> top_first example_unit \<and>
   tu_die_offset example_unit = 23 \<and> tu_offset example_unit + tu_size example_unit = 30 \<and>
   get_DIE_from_refaddr example_parser Inr example_unit 22 = (Inl DWARFError, example_unit) \<and>
   get_DIE_from_refaddr example_parser Inr example_unit 30 = (Inl DWARFError, example_unit) \<and>
   get_DIE_from_refaddr example_parser Inr example_unit 23 = (Inr 0, example_top_cached)"
proof -
  have cs: "cache_sorted example_unit"
    by (simp add: example_unit_def cache_sorted_init)
  have tf: "top_first example_unit"
    by (simp add: top_first_def example_unit_def TypeUnit_init_def)
  have v: "tu_die_offset example_unit = 23" "tu_offset example_unit + tu_size example_unit = 30"
    by (simp_all add: example_unit_def TypeUnit_init_def tu_size_def)
  show ?thesis
    using refaddr_range_check [OF cs, of 22 example_parser Inr]
      refaddr_range_check [OF cs, of 30 example_parser Inr]
      cs tf v example_get_top_DIE
    by simp
qed

text \<open>
  Claim C7, as stated, fails: on a new unit a lookup at an offset that does not decode
  raises, and the cache has grown from no entry to one, the top DIE, which the lookup parses
  and caches first.
\<close>

theorem failed_lookup_cache_counterexample:
  "fst (get_cached_DIE example_parser Inr example_unit 24) = Inl DWARFError \<and>
   length (diemap example_unit) = 0 \<and>
   length (diemap (snd (get_cached_DIE example_parser Inr example_unit 24))) = 1"
proof -
  have "get_cached_DIE example_parser Inr example_top_cached 24 = (Inl DWARFError, example_top_cached)"
    using example_top_cached_inv
    by (subst get_cached_DIE_miss)
       (simp_all add: unit_inv_def example_top_cached_def DIE_init_def example_parser_def)
  moreover have "cache_sorted example_unit"
    by (simp add: example_unit_def cache_sorted_init)
  ultimately show ?thesis
    by (simp add: get_cached_DIE_via_top example_get_top_DIE)
       (simp add: example_top_cached_def example_unit_def TypeUnit_init_def)
qed

text \<open>
  Claim C7, amended. When \<open>_get_cached_DIE\<close> raises on a unit whose cache holds the top
  DIE already, the unit with its cache is exactly as before the call. On a unit with an
  empty cache the only change is the one \<open>get_top_DIE\<close> makes. In both cases an offset
  whose parse fails is not in the cache after the call.
\<close>

theorem failed_lookup_cache:
  assumes "cache_sorted u" "get_cached_DIE P T u off = (Inl e, u')"
  shows "(diemap u \<noteq> [] \<longrightarrow> u' = u) \<and>
         (diemap u = [] \<longrightarrow> u' = snd (get_top_DIE P T u)) \<and>
         ((\<exists>e'. DIE_init P off = Inl e') \<longrightarrow> off \<notin> set (diemap u'))"
proof -
  have miss: "v' = v \<and> off \<notin> set (diemap v')"
    if "cache_sorted v" "diemap v \<noteq> []" "get_cached_DIE P T v off = (Inl e, v')" for v v'
  proof (cases "off \<in> set (diemap v)")
    case True
    then obtain k where "k < length (diemap v)" "diemap v ! k = off"
      by (auto simp: in_set_conv_nth)
    then have "get_cached_DIE P T v off = (Inr (dielist v ! k), v)"
      using get_cached_DIE_hit [OF that(1), of k P T] by simp
    with that(3) show ?thesis by simp
  next
    case False
    with that show ?thesis
      by (auto simp: get_cached_DIE_miss split: sum.splits)
  qed
  show ?thesis
  proof (cases "diemap u = []")
    case False
    with miss [OF assms(1) False assms(2)] show ?thesis by auto
  next
    case True
    obtain res u1 where top: "get_top_DIE P T u = (res, u1)" by (cases "get_top_DIE P T u")
    show ?thesis
    proof (cases res)
      case (Inl e1)
      then have u': "u' = u1" using assms top by (simp add: get_cached_DIE_via_top)
      have "diemap u1 = []" if "DIE_init P off = Inl e'" "off \<in> set (diemap u1)" for e'
      proof -
        have "set (diemap u1) \<subseteq> {tu_die_offset u}"
          using top True by (auto simp: get_top_DIE_empty split: sum.splits)
        with that(2) have "off = tu_die_offset u" by auto
        with that(1) top True show ?thesis by (simp add: get_top_DIE_empty)
      qed
      then show ?thesis using True u' top by auto
    next
      case (Inr tp)
      have cs1: "cache_sorted u1" using assms(1) top by (rule get_top_DIE_sorted)
      have ne: "diemap u1 \<noteq> []" using top Inr get_top_DIE_nonempty by blast
      have "get_cached_DIE P T u1 off = (Inl e, u')"
        using assms top Inr by (simp add: get_cached_DIE_via_top)
      from miss [OF cs1 ne this] show ?thesis using True top by auto
    qed
  qed
qed


lemma example_failed_lookup:
  "get_cached_DIE example_parser Inr example_top_cached 24 = (Inl DWARFError, example_top_cached)"
  using example_top_cached_inv
  by (subst get_cached_DIE_miss)
     (simp_all add: unit_inv_def example_top_cached_def DIE_init_def example_parser_def)

theorem failed_lookup_cache_witness:
  "cache_sorted example_top_cached \<and>
   get_cached_DIE example_parser Inr example_top_cached 24 = (Inl DWARFError, example_top_cached) \<and>
   DIE_init example_parser 24 = Inl DWARFError \<and>
   diemap example_top_cached = [23] \<and> 24 \<notin> set (diemap example_top_cached)"
proof -
  have cs: "cache_sorted example_top_cached"
    using example_top_cached_inv by (simp add: unit_inv_def)
  have p: "DIE_init example_parser 24 = Inl DWARFError"
    by (simp add: DIE_init_def example_parser_def)
  show ?thesis
    using failed_lookup_cache [OF cs example_failed_lookup] cs example_failed_lookup p
    by (simp add: example_top_cached_def)
qed

section \<open>Parse-once lookup, sibling shortcuts and the steps of the iteration\<close>

text \<open>
  Claim C4. On a unit with a consistent cache, \<open>_get_cached_DIE\<close> at a cached offset
  returns the cached object and leaves the unit, with its object store, as it is (no second
  object is created). At an offset that is not cached, when it returns, the object is a new
  one, parsed at that offset; the cache is still in strictly ascending order and holds the
  offset with the new object at the same position, which is the insertion point of
  \<open>bisect_right\<close> when the top DIE was already cached; and a second lookup at the offset
  returns the same object and changes nothing.
\<close>

theorem cached_lookup_parse_once:
  assumes "cache_sorted u"
  shows "(\<forall>k<length (diemap u).
            get_cached_DIE P T u (diemap u ! k) = (Inr (dielist u ! k), u)) \<and>
         (off \<notin> set (diemap u) \<and> get_cached_DIE P T u off = (Inr r, u') \<longrightarrow>
            length (objects u) \<le> r \<and> r < length (objects u') \<and>
            offset (objects u' ! r) = off \<and>
            cache_sorted u' \<and>
            (\<exists>k<length (diemap u'). diemap u' ! k = off \<and> dielist u' ! k = r) \<and>
            (diemap u \<noteq> [] \<longrightarrow>
               diemap u' = list_insert (diemap u) (bisect_right (diemap u) off) off \<and>
               dielist u' = list_insert (dielist u) (bisect_right (diemap u) off) r) \<and>
            get_cached_DIE P T u' off = (Inr r, u'))"
proof (intro conjI allI impI)
  fix k assume "k < length (diemap u)"
  with assms show "get_cached_DIE P T u (diemap u ! k) = (Inr (dielist u ! k), u)"
    by (rule get_cached_DIE_hit)
next
  assume a: "off \<notin> set (diemap u) \<and> get_cached_DIE P T u off = (Inr r, u')"
  then have g: "get_cached_DIE P T u off = (Inr r, u')" and miss: "off \<notin> set (diemap u)"
    by simp_all
  show "length (objects u) \<le> r" using assms miss g by (rule get_cached_DIE_fresh)
  show "r < length (objects u')" "offset (objects u' ! r) = off"
    using assms g by (rule get_cached_DIE_valid)+
  show cs': "cache_sorted u'" using assms g by (rule get_cached_DIE_sorted)
  show ex: "\<exists>k<length (diemap u'). diemap u' ! k = off \<and> dielist u' ! k = r"
    using assms g by (rule get_cached_DIE_result)
  then obtain k where "k < length (diemap u')" "diemap u' ! k = off" "dielist u' ! k = r"
    by blast
  then show "get_cached_DIE P T u' off = (Inr r, u')"
    using get_cached_DIE_hit [OF cs', of k P T] by simp
  assume ne: "diemap u \<noteq> []"
  show "diemap u' = list_insert (diemap u) (bisect_right (diemap u) off) off"
    using assms ne miss g by (rule get_cached_DIE_new)
  show "dielist u' = list_insert (dielist u) (bisect_right (diemap u) off) r"
    using assms ne miss g by (rule get_cached_DIE_new)
qed

lemma example_lookup_B:
  "get_cached_DIE example_parser Inr example_top_cached 28 = (Inr 1, example_two_cached)"
  by code_simp

theorem cached_lookup_parse_once_witness:
  "cache_sorted example_top_cached \<and>
   get_cached_DIE example_parser Inr example_top_cached 23 = (Inr 0, example_top_cached) \<and>
   28 \<notin> set (diemap example_top_cached) \<and>
   get_cached_DIE example_parser Inr example_top_cached 28 = (Inr 1, example_two_cached) \<and>
   length (objects example_top_cached) = 1 \<and>
   diemap example_two_cached = [23, 28] \<and> dielist example_two_cached = [0, 1] \<and>
   cache_sorted example_two_cached \<and>
   get_cached_DIE example_parser Inr example_two_cached 28 = (Inr 1, example_two_cached)"
proof -
  have cs: "cache_sorted example_top_cached"
    using example_top_cached_inv by (simp add: unit_inv_def)
  have m: "28 \<notin> set (diemap example_top_cached)" "diemap example_top_cached = [23]"
    "dielist example_top_cached = [0]" "length (objects example_top_cached) = 1"
    by (simp_all add: example_top_cached_def)
  have d: "diemap example_two_cached = [23, 28]" "dielist example_two_cached = [0, 1]"
    by (simp_all add: example_two_cached_def)
  show ?thesis
    using cached_lookup_parse_once [OF cs, of example_parser Inr 28 1 example_two_cached]
      cs m d example_lookup_B
    by simp
qed

text \<open>
  Claim C1, as stated, fails: a child with children whose sibling attribute has a form that is
  no reference form makes the iteration raise \<open>NotImplementedError\<close>, not FormatError.
\<close>

theorem sibling_form_counterexample:
  "map_option fst (iter_DIE_children 3 sibling_example_parser Inr keep 0
      (snd (get_top_DIE sibling_example_parser Inr example_unit)))
     = Some (Inl NotImplementedError) \<and>
   map_option fst (iter_DIE_children 3 sibling_example_parser Inr keep 0
      (snd (get_top_DIE sibling_example_parser Inr example_unit)))
     \<noteq> Some (Inl FormatError)"
proof -
  have "map_option fst (iter_DIE_children 3 sibling_example_parser Inr keep 0
      (snd (get_top_DIE sibling_example_parser Inr example_unit)))
     = Some (Inl NotImplementedError)"
    by code_simp
  then show ?thesis by auto
qed

text \<open>
  Claim C1, amended. After a child that has children and carries a sibling attribute has
  been yielded, the cursor is the sibling value plus \<open>tu_offset\<close> for each of the six
  unit-relative forms and the sibling value as it is for \<open>DW_FORM_ref_addr\<close>; for any
  other form the iteration raises \<open>NotImplementedError\<close>.
\<close>

theorem sibling_shortcut_cursor:
  assumes "has_children (objects u ! child)"
    and "map_of (attributes (objects u ! child)) ''DW_AT_sibling'' = Some s"
  shows "(form s \<in> set relative_forms \<longrightarrow>
            next_cur_offset (Suc n) P T child cur u = Some (Inr (attr_value s + tu_offset u), u)) \<and>
         (form s = ''DW_FORM_ref_addr'' \<longrightarrow>
            next_cur_offset (Suc n) P T child cur u = Some (Inr (attr_value s), u)) \<and>
         (form s \<notin> set relative_forms \<and> form s \<noteq> ''DW_FORM_ref_addr'' \<longrightarrow>
            next_cur_offset (Suc n) P T child cur u = Some (Inl NotImplementedError, u) \<and>
            (\<forall>u0 u1 die ys body.
               get_cached_DIE P T u0 cur = (Inr child, u1) \<and>
               tag (objects u1 ! child) \<noteq> None \<and>
               body child (set_parent child die u1) = Some (Inr ys, u) \<longrightarrow>
               children_loop (Suc (Suc n)) P T body die cur u0 = Some (Inl NotImplementedError, u)))"
proof -
  have ra: "''DW_FORM_ref_addr'' \<notin> set relative_forms" by (simp add: relative_forms_def)
  have nx: "next_cur_offset (Suc n) P T child cur u = Some (sibling_offset (tu_offset u) s, u)"
    using assms by (simp add: next_cur_offset.simps)
  have bad: "children_loop (Suc (Suc n)) P T body die cur u0 = Some (Inl NotImplementedError, u)"
    if "sibling_offset (tu_offset u) s = Inl NotImplementedError"
      "get_cached_DIE P T u0 cur = (Inr child, u1)" "tag (objects u1 ! child) \<noteq> None"
      "body child (set_parent child die u1) = Some (Inr ys, u)" for u0 u1 die ys and body :: consumer
    using that nx by (simp add: children_loop_Suc [of "Suc n"])
  show ?thesis
  proof (intro conjI impI allI)
    assume "form s \<in> set relative_forms"
    then show "next_cur_offset (Suc n) P T child cur u = Some (Inr (attr_value s + tu_offset u), u)"
      by (simp add: nx sibling_offset_def)
  next
    assume "form s = ''DW_FORM_ref_addr''"
    then show "next_cur_offset (Suc n) P T child cur u = Some (Inr (attr_value s), u)"
      using ra by (simp add: nx sibling_offset_def)
  next
    assume "form s \<notin> set relative_forms \<and> form s \<noteq> ''DW_FORM_ref_addr''"
    then show "next_cur_offset (Suc n) P T child cur u = Some (Inl NotImplementedError, u)"
      by (simp add: nx sibling_offset_def)
  next
    fix u0 u1 die and ys :: "ref option list" and body :: consumer
    assume f: "form s \<notin> set relative_forms \<and> form s \<noteq> ''DW_FORM_ref_addr''"
      and h: "get_cached_DIE P T u0 cur = (Inr child, u1) \<and>
        tag (objects u1 ! child) \<noteq> None \<and>
        body child (set_parent child die u1) = Some (Inr ys, u)"
    from f have "sibling_offset (tu_offset u) s = Inl NotImplementedError"
      by (simp add: sibling_offset_def)
    moreover from h have "get_cached_DIE P T u0 cur = (Inr child, u1)"
      "tag (objects u1 ! child) \<noteq> None"
      "body child (set_parent child die u1) = Some (Inr ys, u)" by blast+
    ultimately show "children_loop (Suc (Suc n)) P T body die cur u0 = Some (Inl NotImplementedError, u)"
      by (rule bad)
  qed
qed

theorem sibling_shortcut_cursor_witness:
  "has_children (objects shortcut_child_cached ! 1) \<and>
   map_of (attributes (objects shortcut_child_cached ! 1)) ''DW_AT_sibling''
     = Some \<lparr>form = ''DW_FORM_ref4'', attr_value = 37\<rparr> \<and>
   ''DW_FORM_ref4'' \<in> set relative_forms \<and> tu_offset shortcut_child_cached = 64 \<and>
   next_cur_offset (Suc 0) shortcut_parser Inr 1 92 shortcut_child_cached
     = Some (Inr 101, shortcut_child_cached) \<and>
   has_children (objects sibling_example_cached ! 1) \<and>
   map_of (attributes (objects sibling_example_cached ! 1)) ''DW_AT_sibling''
     = Some \<lparr>form = ''DW_FORM_data4'', attr_value = 40\<rparr> \<and>
   next_cur_offset (Suc 0) sibling_example_parser Inr 1 28 sibling_example_cached
     = Some (Inl NotImplementedError, sibling_example_cached)"
proof -
  have a: "has_children (objects shortcut_child_cached ! 1)" by code_simp
  have b: "map_of (attributes (objects shortcut_child_cached ! 1)) ''DW_AT_sibling''
     = Some \<lparr>form = ''DW_FORM_ref4'', attr_value = 37\<rparr>" by code_simp
  have c: "''DW_FORM_ref4'' \<in> set relative_forms" by (simp add: relative_forms_def)
  have d: "tu_offset shortcut_child_cached = 64" by code_simp
  have a': "has_children (objects sibling_example_cached ! 1)" by code_simp
  have b': "map_of (attributes (objects sibling_example_cached ! 1)) ''DW_AT_sibling''
     = Some \<lparr>form = ''DW_FORM_data4'', attr_value = 40\<rparr>" by code_simp
  have c': "''DW_FORM_data4'' \<notin> set relative_forms" by (simp add: relative_forms_def)
  show ?thesis
    using sibling_shortcut_cursor [OF a b, of 0 shortcut_parser Inr 92]
      sibling_shortcut_cursor [OF a' b', of 0 sibling_example_parser Inr 28]
      a b c d a' b' c'
    by (simp del: One_nat_def)
qed

text \<open>
  Claim C6. For a DIE without children \<open>iter_DIE_children\<close> yields nothing and leaves the
  unit as it is. For a DIE with children the loop starts at \<open>offset + size\<close>. Every child
  the loop fetches has its parent set to the DIE; a null child is recorded as the
  terminator of the DIE and ends the iteration, nothing being yielded for it; after a child
  without children has been yielded (and the consumer's body has run), the cursor is the
  old cursor plus the child's size, and the loop goes on from there.
\<close>

theorem iter_DIE_children_steps:
  assumes "cache_sorted u" "die < length (objects u)"
  shows "(\<not> has_children (objects u ! die) \<longrightarrow>
            iter_DIE_children (Suc n) P T body die u = Some (Inr [], u)) \<and>
         (has_children (objects u ! die) \<longrightarrow>
            iter_DIE_children (Suc n) P T body die u =
              children_loop n P T body die
                (offset (objects u ! die) + die_size (objects u ! die)) u) \<and>
         (get_cached_DIE P T u cur = (Inr child, u1) \<longrightarrow>
            parent (objects (set_parent child die u1) ! child) = Some die \<and>
            (tag (objects u1 ! child) = None \<longrightarrow>
               children_loop (Suc n) P T body die cur u
                 = Some (Inr [], set_terminator die child (set_parent child die u1)) \<and>
               terminator (objects (set_terminator die child (set_parent child die u1)) ! die)
                 = Some child \<and>
               parent (objects (set_terminator die child (set_parent child die u1)) ! child)
                 = Some die) \<and>
            (tag (objects u1 ! child) \<noteq> None \<and>
             body child (set_parent child die u1) = Some (Inr ys, u3) \<and>
             \<not> has_children (objects u3 ! child) \<longrightarrow>
               next_cur_offset (Suc n) P T child cur u3
                 = Some (Inr (cur + die_size (objects u3 ! child)), u3) \<and>
               children_loop (Suc (Suc n)) P T body die cur u =
                 (case children_loop (Suc n) P T body die (cur + die_size (objects u3 ! child)) u3 of
                    None \<Rightarrow> None
                  | Some (Inl e, u5) \<Rightarrow> Some (Inl e, u5)
                  | Some (Inr zs, u5) \<Rightarrow> Some (Inr (ys @ zs), u5))))"
proof (intro conjI impI)
  assume "\<not> has_children (objects u ! die)"
  then show "iter_DIE_children (Suc n) P T body die u = Some (Inr [], u)"
    by (simp add: iter_DIE_children.simps)
next
  assume "has_children (objects u ! die)"
  then show "iter_DIE_children (Suc n) P T body die u =
      children_loop n P T body die (offset (objects u ! die) + die_size (objects u ! die)) u"
    by (simp add: iter_DIE_children.simps)
next
  assume g: "get_cached_DIE P T u cur = (Inr child, u1)"
  have c: "child < length (objects u1)" using assms(1) g by (rule get_cached_DIE_valid)
  show "parent (objects (set_parent child die u1) ! child) = Some die"
    using c by (rule set_parent_parent)
next
  assume g: "get_cached_DIE P T u cur = (Inr child, u1)"
    and null: "tag (objects u1 ! child) = None"
  show "children_loop (Suc n) P T body die cur u
      = Some (Inr [], set_terminator die child (set_parent child die u1))"
    using g null by (simp add: children_loop_Suc)
next
  assume g: "get_cached_DIE P T u cur = (Inr child, u1)"
  have d: "die < length (objects u1)" using assms(2) get_cached_DIE_objects [OF g] by simp
  show "terminator (objects (set_terminator die child (set_parent child die u1)) ! die) = Some child"
    using d by (intro set_terminator_terminator) simp
next
  assume g: "get_cached_DIE P T u cur = (Inr child, u1)"
  have c: "child < length (objects u1)" using assms(1) g by (rule get_cached_DIE_valid)
  then have "parent (objects (set_parent child die u1) ! child) = Some die"
    by (rule set_parent_parent)
  then show "parent (objects (set_terminator die child (set_parent child die u1)) ! child) = Some die"
    by simp
next
  assume a: "tag (objects u1 ! child) \<noteq> None \<and>
      body child (set_parent child die u1) = Some (Inr ys, u3) \<and>
      \<not> has_children (objects u3 ! child)"
  then show "next_cur_offset (Suc n) P T child cur u3
      = Some (Inr (cur + die_size (objects u3 ! child)), u3)"
    by (simp add: next_cur_offset.simps)
next
  assume g: "get_cached_DIE P T u cur = (Inr child, u1)"
    and a: "tag (objects u1 ! child) \<noteq> None \<and>
      body child (set_parent child die u1) = Some (Inr ys, u3) \<and>
      \<not> has_children (objects u3 ! child)"
  then have nx: "next_cur_offset (Suc n) P T child cur u3
      = Some (Inr (cur + die_size (objects u3 ! child)), u3)"
    by (simp add: next_cur_offset.simps)
  from a have t: "tag (objects u1 ! child) \<noteq> None"
    and b: "body child (set_parent child die u1) = Some (Inr ys, u3)" by simp_all
  show "children_loop (Suc (Suc n)) P T body die cur u =
      (case children_loop (Suc n) P T body die (cur + die_size (objects u3 ! child)) u3 of
         None \<Rightarrow> None
       | Some (Inl e, u5) \<Rightarrow> Some (Inl e, u5)
       | Some (Inr zs, u5) \<Rightarrow> Some (Inr (ys @ zs), u5))"
    by (simp add: children_loop_Suc [of "Suc n"] g t b nx)
qed

theorem iter_DIE_children_steps_witness:
  "cache_sorted example_two_cached \<and> 0 < length (objects example_two_cached) \<and>
   1 < length (objects example_two_cached) \<and>
   \<not> has_children (objects example_two_cached ! 1) \<and>
   iter_DIE_children (Suc 3) example_parser Inr keep 1 example_two_cached
     = Some (Inr [], example_two_cached) \<and>
   has_children (objects example_two_cached ! 0) \<and>
   offset (objects example_two_cached ! 0) + die_size (objects example_two_cached ! 0) = 28 \<and>
   iter_DIE_children (Suc 3) example_parser Inr keep 0 example_two_cached
     = children_loop 3 example_parser Inr keep 0 28 example_two_cached \<and>
   get_cached_DIE example_parser Inr example_two_cached 28 = (Inr 1, example_two_cached) \<and>
   parent (objects (set_parent 1 0 example_two_cached) ! 1) = Some 0 \<and>
   next_cur_offset (Suc 1) example_parser Inr 1 28 (set_parent 1 0 example_two_cached)
     = Some (Inr 29, set_parent 1 0 example_two_cached) \<and>
   fst (get_cached_DIE example_parser Inr (set_parent 1 0 example_two_cached) 29) = Inr 2 \<and>
   map_option fst (children_loop (Suc 0) example_parser Inr keep 0 29 (set_parent 1 0 example_two_cached))
     = Some (Inr []) \<and>
   map_option fst (iter_DIE_children (Suc 3) example_parser Inr keep 0 example_two_cached)
     = Some (Inr [Some 1])"
proof -
  have cs: "cache_sorted example_two_cached"
    by (simp add: cache_sorted_def example_two_cached_def example_unit_def TypeUnit_init_def)
  have v0: "0 < length (objects example_two_cached)" and v1: "1 < length (objects example_two_cached)"
    by (simp_all add: example_two_cached_def)
  have h1: "\<not> has_children (objects example_two_cached ! 1)"
    and h0: "has_children (objects example_two_cached ! 0)"
    and o0: "offset (objects example_two_cached ! 0) + die_size (objects example_two_cached ! 0) = 28"
    by (simp_all add: example_two_cached_def)
  have g: "get_cached_DIE example_parser Inr example_two_cached 28 = (Inr 1, example_two_cached)"
    by code_simp
  have t: "tag (objects example_two_cached ! 1) \<noteq> None"
    by (simp add: example_two_cached_def)
  have k: "keep 1 (set_parent 1 0 example_two_cached) = Some (Inr [Some 1], set_parent 1 0 example_two_cached)"
    by (simp add: keep_def)
  have l: "\<not> has_children (objects (set_parent 1 0 example_two_cached) ! 1)"
    and sz: "die_size (objects (set_parent 1 0 example_two_cached) ! 1) = 1"
    by (simp_all add: example_two_cached_def)
  have g2: "fst (get_cached_DIE example_parser Inr (set_parent 1 0 example_two_cached) 29) = Inr 2"
    by code_simp
  have n: "map_option fst (children_loop (Suc 0) example_parser Inr keep 0 29 (set_parent 1 0 example_two_cached))
     = Some (Inr [])"
    by code_simp
  have r: "map_option fst (iter_DIE_children (Suc 3) example_parser Inr keep 0 example_two_cached)
     = Some (Inr [Some 1])"
    by code_simp
  show ?thesis
    using iter_DIE_children_steps [OF cs v1, of 3 example_parser Inr keep]
      iter_DIE_children_steps [OF cs v0, of 3 example_parser Inr keep 28 1 example_two_cached
        "[Some 1]" "set_parent 1 0 example_two_cached"]
      iter_DIE_children_steps [OF cs v0, of 1 example_parser Inr keep 28 1 example_two_cached
        "[Some 1]" "set_parent 1 0 example_two_cached"]
      cs v0 v1 h1 h0 o0 g t k l sz g2 n r
    by simp
qed

section \<open>Fuel, layouts and consistent states\<close>

lemma iter_DIE_children_Suc:
  "iter_DIE_children (Suc n) P T body die u =
     (if \<not> has_children (objects u ! die) then Some (Inr [], u)
      else children_loop n P T body die
             (offset (objects u ! die) + die_size (objects u ! die)) u)"
  by (simp add: iter_DIE_children.simps)

lemma next_cur_offset_Suc:
  "next_cur_offset (Suc n) P T child cur u =
     (if \<not> has_children (objects u ! child)
      then Some (Inr (cur + die_size (objects u ! child)), u)
      else
        (case map_of (attributes (objects u ! child)) ''DW_AT_sibling'' of
           Some sibling \<Rightarrow> Some (sibling_offset (tu_offset u) sibling, u)
         | None \<Rightarrow>
             (case (if terminator (objects u ! child) = None
                    then iter_DIE_children n P T pass child u
                    else Some (Inr [], u)) of
                None \<Rightarrow> None
              | Some (Inl e, u1) \<Rightarrow> Some (Inl e, u1)
              | Some (Inr ys, u1) \<Rightarrow>
                  (case terminator (objects u1 ! child) of
                     None \<Rightarrow> Some (Inl AttributeError, u1)
                   | Some t \<Rightarrow>
                       Some (Inr (offset (objects u1 ! t) + die_size (objects u1 ! t)), u1)))))"
  by (simp add: next_cur_offset.simps)

text \<open>More fuel, and a consumer that returns whatever the first one returns, give the same result.\<close>

lemma fuel_mono_all:
  "(\<forall>body body' die u r m. iter_DIE_children n P T body die u = Some r \<longrightarrow> n \<le> m \<longrightarrow>
       (\<forall>c v x. body c v = Some x \<longrightarrow> body' c v = Some x) \<longrightarrow>
       iter_DIE_children m P T body' die u = Some r) \<and>
   (\<forall>body body' die cur u r m. children_loop n P T body die cur u = Some r \<longrightarrow> n \<le> m \<longrightarrow>
       (\<forall>c v x. body c v = Some x \<longrightarrow> body' c v = Some x) \<longrightarrow>
       children_loop m P T body' die cur u = Some r) \<and>
   (\<forall>child cur u r m. next_cur_offset n P T child cur u = Some r \<longrightarrow> n \<le> m \<longrightarrow>
       next_cur_offset m P T child cur u = Some r)"
proof (induction n)
  case 0
  show ?case by (simp add: iter_DIE_children.simps children_loop.simps next_cur_offset.simps)
next
  case (Suc n)
  have IH1: "iter_DIE_children m P T body' die u = Some r"
    if "iter_DIE_children n P T body die u = Some r" "n \<le> m"
      "\<forall>c v x. body c v = Some x \<longrightarrow> body' c v = Some x" for body body' die u r m
    using Suc that by blast
  have IH2: "children_loop m P T body' die cur u = Some r"
    if "children_loop n P T body die cur u = Some r" "n \<le> m"
      "\<forall>c v x. body c v = Some x \<longrightarrow> body' c v = Some x" for body body' die cur u r m
    using Suc that by blast
  have IH3: "next_cur_offset m P T child cur u = Some r"
    if "next_cur_offset n P T child cur u = Some r" "n \<le> m" for child cur u r m
    using Suc that by blast
  have A: "iter_DIE_children m P T body' die u = Some r"
    if h: "iter_DIE_children (Suc n) P T body die u = Some r" and m: "Suc n \<le> m"
      and b: "\<forall>c v x. body c v = Some x \<longrightarrow> body' c v = Some x" for body body' die u r m
  proof -
    obtain m' where m': "m = Suc m'" "n \<le> m'" using m by (cases m) auto
    show ?thesis
    proof (cases "has_children (objects u ! die)")
      case False
      with h show ?thesis by (simp add: m' iter_DIE_children_Suc)
    next
      case True
      with h have "children_loop n P T body die
          (offset (objects u ! die) + die_size (objects u ! die)) u = Some r"
        by (simp add: iter_DIE_children_Suc)
      from IH2 [OF this m'(2) b] True show ?thesis by (simp add: m' iter_DIE_children_Suc)
    qed
  qed
  have C: "next_cur_offset m P T child cur u = Some r"
    if h: "next_cur_offset (Suc n) P T child cur u = Some r" and m: "Suc n \<le> m"
    for child cur u r m
  proof -
    obtain m' where m': "m = Suc m'" "n \<le> m'" using m by (cases m) auto
    let ?d = "if terminator (objects u ! child) = None
              then iter_DIE_children n P T pass child u else Some (Inr [], u)"
    let ?d' = "if terminator (objects u ! child) = None
              then iter_DIE_children m' P T pass child u else Some (Inr [], u)"
    show ?thesis
    proof (cases "\<not> has_children (objects u ! child) \<or>
        map_of (attributes (objects u ! child)) ''DW_AT_sibling'' \<noteq> None")
      case True
      with h show ?thesis by (auto simp: m' next_cur_offset_Suc)
    next
      case False
      with h obtain x where x: "?d = Some x"
        by (cases ?d) (auto simp: next_cur_offset_Suc)
      have "?d' = Some x"
      proof (cases "terminator (objects u ! child) = None")
        case True
        with x have "iter_DIE_children n P T pass child u = Some x" by simp
        from IH1 [OF this m'(2)] True show ?thesis by simp
      next
        case False
        with x show ?thesis by auto
      qed
      with h x False show ?thesis by (simp add: m' next_cur_offset_Suc)
    qed
  qed
  have B: "children_loop m P T body' die cur u = Some r"
    if h: "children_loop (Suc n) P T body die cur u = Some r" and m: "Suc n \<le> m"
      and b: "\<forall>c v x. body c v = Some x \<longrightarrow> body' c v = Some x" for body body' die cur u r m
  proof -
    obtain m' where m': "m = Suc m'" "n \<le> m'" using m by (cases m) auto
    obtain res u1 where g: "get_cached_DIE P T u cur = (res, u1)"
      by (cases "get_cached_DIE P T u cur")
    show ?thesis
    proof (cases res)
      case (Inl e)
      with h g show ?thesis by (auto simp: m' children_loop_Suc simp del: not_None_eq)
    next
      case (Inr child)
      show ?thesis
      proof (cases "tag (objects u1 ! child) = None")
        case True
        with h g Inr show ?thesis by (auto simp: m' children_loop_Suc simp del: not_None_eq)
      next
        case False
        let ?u2 = "set_parent child die u1"
        from h g Inr False obtain x where x: "body child ?u2 = Some x"
          by (cases "body child ?u2") (auto simp: children_loop_Suc simp del: not_None_eq)
        then have x': "body' child ?u2 = Some x" using b by blast
        obtain rb u3 where xb: "x = (rb, u3)" by (cases x)
        show ?thesis
        proof (cases rb)
          case (Inl e)
          with h g Inr False x x' xb show ?thesis by (auto simp: m' children_loop_Suc simp del: not_None_eq)
        next
          case ys: (Inr ys)
          from h g Inr False x xb ys obtain y where y: "next_cur_offset n P T child cur u3 = Some y"
            by (cases "next_cur_offset n P T child cur u3") (auto simp: children_loop_Suc simp del: not_None_eq)
          have y': "next_cur_offset m' P T child cur u3 = Some y" using y m'(2) by (rule IH3)
          obtain rc u4 where yc: "y = (rc, u4)" by (cases y)
          show ?thesis
          proof (cases rc)
            case (Inl e)
            with h g Inr False x x' xb ys y y' yc show ?thesis
              by (auto simp: m' children_loop_Suc simp del: not_None_eq)
          next
            case c: (Inr cur')
            from h g Inr False x xb ys y yc c obtain z
              where z: "children_loop n P T body die cur' u4 = Some z"
              by (cases "children_loop n P T body die cur' u4") (auto simp: children_loop_Suc simp del: not_None_eq)
            have z': "children_loop m' P T body' die cur' u4 = Some z"
              using z m'(2) b by (rule IH2)
            from h g Inr False x x' xb ys y y' yc c z z' show ?thesis
              by (auto simp: m' children_loop_Suc simp del: not_None_eq)
          qed
        qed
      qed
    qed
  qed
  show ?case using A B C by blast
qed

lemma iter_DIE_children_mono:
  assumes "iter_DIE_children n P T body die u = Some r" "n \<le> m"
    and "\<And>c v x. body c v = Some x \<Longrightarrow> body' c v = Some x"
  shows "iter_DIE_children m P T body' die u = Some r"
  using fuel_mono_all [of n P T] assms by blast

lemma children_loop_mono:
  assumes "children_loop n P T body die cur u = Some r" "n \<le> m"
    and "\<And>c v x. body c v = Some x \<Longrightarrow> body' c v = Some x"
  shows "children_loop m P T body' die cur u = Some r"
  using fuel_mono_all [of n P T] assms by blast

lemma next_cur_offset_mono:
  assumes "next_cur_offset n P T child cur u = Some r" "n \<le> m"
  shows "next_cur_offset m P T child cur u = Some r"
  using fuel_mono_all [of n P T] assms by blast

lemma iter_DIE_subtree_mono:
  "iter_DIE_subtree n P T G die u = Some r \<Longrightarrow> n \<le> m \<Longrightarrow> iter_DIE_subtree m P T G die u = Some r"
proof (induction n arbitrary: die u r m)
  case 0
  then show ?case by simp
next
  case (Suc n)
  obtain m' where m': "m = Suc m'" "n \<le> m'" using Suc.prems(2) by (cases m) auto
  let ?g = "if tag (objects u ! die) = Some ''DW_TAG_imported_unit'' \<and> supplementary_dwarfinfo u
            then G die u else (Inr die, u)"
  obtain rg u1 where g: "?g = (rg, u1)" by (cases ?g)
  show ?case
  proof (cases rg)
    case (Inl e)
    with Suc.prems(1) g show ?thesis by (simp add: m')
  next
    case (Inr d)
    show ?thesis
    proof (cases "has_children (objects u1 ! d)")
      case False
      with Suc.prems(1) g Inr show ?thesis by (simp add: m')
    next
      case True
      from Suc.prems(1) g Inr True obtain x
        where x: "iter_DIE_children n P T (iter_DIE_subtree n P T G) d u1 = Some x"
        by (cases "iter_DIE_children n P T (iter_DIE_subtree n P T G) d u1") auto
      have "iter_DIE_children m' P T (iter_DIE_subtree m' P T G) d u1 = Some x"
        using x m'(2)
      proof (rule iter_DIE_children_mono)
        fix c v y assume "iter_DIE_subtree n P T G c v = Some y"
        then show "iter_DIE_subtree m' P T G c v = Some y" using m'(2) by (rule Suc.IH)
      qed
      with Suc.prems(1) g Inr True x show ?thesis by (simp add: m')
    qed
  qed
qed

subsection \<open>Layouts\<close>

lemma layout_forward:
  shows "entry_at P b off es e \<Longrightarrow> off < e"
    and "children_at P b off cs es t e \<Longrightarrow> off \<le> t \<and> t < e"
  by (induction rule: entry_at_children_at.inducts) auto

lemma entry_at_parsed:
  assumes "entry_at P b off es e"
  shows "\<exists>tg hc sz ats. P off = Inr (Entry tg hc sz ats) \<and> 0 < sz"
  using assms by (cases rule: entry_at.cases) auto

lemma layout_deterministic:
  shows "entry_at P b off es e \<Longrightarrow> entry_at P b off es' e' \<Longrightarrow> es' = es \<and> e' = e"
    and "children_at P b off cs es t e \<Longrightarrow> children_at P b off cs' es' t' e' \<Longrightarrow>
         cs' = cs \<and> es' = es \<and> t' = t \<and> e' = e"
proof (induction arbitrary: es' e' and cs' es' t' e' rule: entry_at_children_at.inducts)
  case (leaf off tg sz ats)
  from leaf.prems show ?case by (cases rule: entry_at.cases) (use leaf.IH in auto)
next
  case (node off tg sz ats cs es t e)
  from node.prems show ?case
  proof (cases rule: entry_at.cases)
    case (leaf tg' sz' ats')
    with node.IH(1) show ?thesis by simp
  next
    case n: (node tg' sz' ats' cs2 es2 t2)
    with node.IH(1) have "sz' = sz" by simp
    with node.IH(3) [of cs2 es2 t2 e'] n show ?thesis by simp
  qed
next
  case (nil off sz)
  from nil.prems show ?case
  proof (cases rule: children_at.cases)
    case n: (nil sz')
    with nil.IH show ?thesis by simp
  next
    case (cons es1 e1 cs2 es2)
    from entry_at_parsed [OF cons(3)] nil.IH show ?thesis by auto
  qed
next
  case (cons off es1 e1 cs es2 t e)
  from cons.prems show ?case
  proof (cases rule: children_at.cases)
    case (nil sz')
    from entry_at_parsed [OF cons.IH(1)] nil show ?thesis by auto
  next
    case c: (cons es1' e1' cs2 es2')
    from cons.IH(2) [OF c(3)] have eq: "es1' = es1" "e1' = e1" by simp_all
    from cons.IH(4) [of cs2 es2' t' e'] c(4) eq
    have "cs2 = cs \<and> es2' = es2 \<and> t' = t \<and> e' = e" by simp
    with c eq show ?thesis by simp
  qed
qed

lemma strip_siblings_no_sibling:
  assumes "strip_siblings P off = Inr (Entry tg hc sz ats)"
  shows "map_of ats ''DW_AT_sibling'' = None"
proof -
  have "map_of (filter (\<lambda>(name, a). name \<noteq> ''DW_AT_sibling'') xs) ''DW_AT_sibling'' = None"
    for xs :: "(string \<times> AttributeValue) list"
    by (induction xs) auto
  with assms show ?thesis
    by (auto simp: strip_siblings_def split: sum.splits parsed.splits)
qed

text \<open>
  On a well-formed shortcut the code computes the offset the specification gives: every
  unit-relative form of the specification is one of the forms the code adds the base to,
  and the absolute form is not.
\<close>

lemma sibling_offset_spec:
  assumes "spec_sibling_target base s = Some e"
  shows "sibling_offset base s = Inr e"
proof (cases "form s = ''DW_FORM_ref_addr''")
  case True
  moreover have "''DW_FORM_ref_addr'' \<notin> set relative_forms" by (simp add: relative_forms_def)
  ultimately show ?thesis using assms by (simp add: sibling_offset_def spec_sibling_target_def)
next
  case False
  with assms have r: "form s \<in> set unit_relative_forms" "e = base + attr_value s"
    by (auto simp: spec_sibling_target_def split: if_splits)
  have "set unit_relative_forms \<subseteq> set relative_forms"
    by (simp add: unit_relative_forms_def relative_forms_def)
  with r show ?thesis by (auto simp: sibling_offset_def)
qed

lemma sibling_ok_offset:
  assumes "sibling_ok base ats e" "map_of ats ''DW_AT_sibling'' = Some s"
  shows "sibling_offset base s = Inr e"
  using assms by (auto simp: sibling_ok_def intro: sibling_offset_spec)

lemma strip_siblings_layout:
  shows "entry_at P b off es e \<Longrightarrow> entry_at (strip_siblings P) b off es e"
    and "children_at P b off cs es t e \<Longrightarrow> children_at (strip_siblings P) b off cs es t e"
proof (induction rule: entry_at_children_at.inducts)
  case (leaf off tg sz ats)
  let ?ats = "filter (\<lambda>(name, a). name \<noteq> ''DW_AT_sibling'') ats"
  have "strip_siblings P off = Inr (Entry tg False sz ?ats)"
    using leaf by (simp add: strip_siblings_def)
  then show ?case using leaf.hyps by (rule entry_at_children_at.leaf)
next
  case (node off tg sz ats cs es t e)
  let ?ats = "filter (\<lambda>(name, a). name \<noteq> ''DW_AT_sibling'') ats"
  have p: "strip_siblings P off = Inr (Entry tg True sz ?ats)"
    using node by (simp add: strip_siblings_def)
  have "sibling_ok b ?ats e"
    using strip_siblings_no_sibling [OF p] by (simp add: sibling_ok_def)
  with p node show ?case by (intro entry_at_children_at.node [where ats = "?ats"]) simp_all
next
  case (nil off sz)
  then show ?case by (intro entry_at_children_at.nil) (simp_all add: strip_siblings_def)
next
  case (cons off es1 e1 cs es2 t e)
  then show ?case by (intro entry_at_children_at.cons) simp_all
qed

subsection \<open>Consistent states\<close>

lemma same_unit_refl [simp]: "same_unit u u"
  by (simp add: same_unit_def)

lemma same_unit_trans: "same_unit u v \<Longrightarrow> same_unit v w \<Longrightarrow> same_unit u w"
  by (simp add: same_unit_def)

lemma grows_refl [simp]: "grows u u"
  by (simp add: grows_def same_entry_def)

lemma grows_trans:
  assumes "grows u v" "grows v w"
  shows "grows u w"
proof -
  have "same_entry (objects u ! r) (objects w ! r)" if "r < length (objects u)" for r
  proof -
    have "same_entry (objects u ! r) (objects v ! r)" using assms(1) that by (simp add: grows_def)
    moreover have "same_entry (objects v ! r) (objects w ! r)"
      using assms that by (simp add: grows_def)
    ultimately show ?thesis by (simp add: same_entry_def)
  qed
  moreover have "same_unit u w" using assms same_unit_trans by (auto simp: grows_def)
  moreover have "length (objects u) \<le> length (objects w)" using assms by (simp add: grows_def)
  ultimately show ?thesis by (simp add: grows_def)
qed

lemma grows_obj:
  assumes "grows u v" "r < length (objects u)"
  shows "r < length (objects v)" "offset (objects v ! r) = offset (objects u ! r)"
    "die_size (objects v ! r) = die_size (objects u ! r)"
    "has_children (objects v ! r) = has_children (objects u ! r)"
    "tag (objects v ! r) = tag (objects u ! r)"
    "attributes (objects v ! r) = attributes (objects u ! r)"
  using assms by (auto simp: grows_def same_entry_def)

lemma grows_unit:
  assumes "grows u v"
  shows "tu_offset v = tu_offset u" "tu_die_offset v = tu_die_offset u"
    "supplementary_dwarfinfo v = supplementary_dwarfinfo u"
  using assms by (auto simp: grows_def same_unit_def)

lemma DIE_init_Entry:
  "P off = Inr (Entry tg hc sz ats) \<Longrightarrow>
   DIE_init P off = Inr \<lparr>offset = off, tag = Some tg, has_children = hc, die_size = sz,
                          attributes = ats, terminator = None, parent = None\<rparr>"
  by (simp add: DIE_init_def)

lemma DIE_init_Null:
  "P off = Inr (Null sz) \<Longrightarrow>
   DIE_init P off = Inr \<lparr>offset = off, tag = None, has_children = False, die_size = sz,
                          attributes = [], terminator = None, parent = None\<rparr>"
  by (simp add: DIE_init_def)

lemma agrees_Entry:
  assumes "agrees P lo d" "P (offset d) = Inr (Entry tg hc sz ats)"
  shows "tag d = Some tg" "has_children d = hc" "die_size d = sz"
    "offset d \<noteq> lo \<Longrightarrow> attributes d = ats"
  using assms by (auto simp: agrees_def DIE_init_Entry)

lemma agrees_Null:
  assumes "agrees P lo d" "P (offset d) = Inr (Null sz)"
  shows "tag d = None" "die_size d = sz"
  using assms by (auto simp: agrees_def DIE_init_Null)

lemma agrees_DIE_init: "DIE_init P off = Inr d \<Longrightarrow> agrees P lo d"
  by (auto simp: agrees_def DIE_init_def split: sum.splits parsed.splits)

lemma agrees_same_entry: "agrees P lo d \<Longrightarrow> same_entry d d' \<Longrightarrow> agrees P lo d'"
  by (auto simp: agrees_def same_entry_def split: sum.splits)

lemma consistent_obj:
  assumes "consistent P u" "r < length (objects u)"
  shows "tu_die_offset u \<le> offset (objects u ! r)"
    "agrees P (tu_die_offset u) (objects u ! r)" "terminator_ok P u (objects u ! r)"
  using assms nth_mem [of r "objects u"] unfolding consistent_def by blast+

lemma consistent_unit:
  assumes "consistent P u"
  shows "cache_sorted u" "top_first u" "unit_inv u" "diemap u \<noteq> []"
  using assms by (auto simp: consistent_def unit_inv_def)

lemma terminator_ok_grows:
  assumes "terminator_ok P u d" "grows u v"
    and "offset d' = offset d" "die_size d' = die_size d" "terminator d' = terminator d"
  shows "terminator_ok P v d'"
proof (cases "terminator d")
  case None
  with assms(5) show ?thesis by (simp add: terminator_ok_def)
next
  case (Some t)
  with assms(1) have t: "t < length (objects u)" "tag (objects u ! t) = None"
    and ex: "\<exists>cs es. children_at P (tu_offset u) (offset d + die_size d) cs es
         (offset (objects u ! t)) (offset (objects u ! t) + die_size (objects u ! t))"
    by (simp_all add: terminator_ok_def)
  have o: "offset (objects v ! t) = offset (objects u ! t)"
    "die_size (objects v ! t) = die_size (objects u ! t)"
    "tag (objects v ! t) = tag (objects u ! t)" "t < length (objects v)"
    using grows_obj [OF assms(2) t(1)] by simp_all
  have b: "tu_offset v = tu_offset u" using assms(2) by (rule grows_unit)
  have "\<exists>cs es. children_at P (tu_offset v) (offset d' + die_size d') cs es
         (offset (objects v ! t)) (offset (objects v ! t) + die_size (objects v ! t))"
    using ex unfolding o b assms(3,4) .
  moreover have "terminator d' = Some t" using Some assms(5) by simp
  ultimately show ?thesis using o(3,4) t(2) by (simp add: terminator_ok_def)
qed

text \<open>
  A later state is consistent when its cache is in order and each of its objects either
  is an old object with its terminator unchanged, or is justified on its own.
\<close>

lemma consistent_grow:
  assumes "consistent P u" "grows u v" "unit_inv v" "diemap v \<noteq> []"
    and new: "\<And>r. r < length (objects v) \<Longrightarrow>
      (r < length (objects u) \<and> terminator (objects v ! r) = terminator (objects u ! r)) \<or>
      (tu_die_offset u \<le> offset (objects v ! r) \<and> agrees P (tu_die_offset u) (objects v ! r) \<and>
       terminator_ok P v (objects v ! r))"
  shows "consistent P v"
proof -
  have lo: "tu_die_offset v = tu_die_offset u" using assms(2) by (rule grows_unit)
  have key: "tu_die_offset v \<le> offset d \<and> agrees P (tu_die_offset v) d \<and> terminator_ok P v d"
    if d: "d \<in> set (objects v)" for d
  proof -
    from d obtain r where r: "r < length (objects v)" and dr: "d = objects v ! r"
      by (auto simp: in_set_conv_nth)
    from new [OF r] show ?thesis
    proof
      assume old: "r < length (objects u) \<and> terminator (objects v ! r) = terminator (objects u ! r)"
      then have r': "r < length (objects u)"
        and tm: "terminator (objects v ! r) = terminator (objects u ! r)" by blast+
      have se: "same_entry (objects u ! r) (objects v ! r)"
        using assms(2) r' unfolding grows_def by blast
      have 1: "terminator_ok P v (objects v ! r)"
        using consistent_obj(3) [OF assms(1) r'] assms(2) grows_obj(2) [OF assms(2) r']
          grows_obj(3) [OF assms(2) r'] tm
        by (rule terminator_ok_grows)
      have 2: "agrees P (tu_die_offset u) (objects v ! r)"
        using consistent_obj(2) [OF assms(1) r'] se by (rule agrees_same_entry)
      have 3: "tu_die_offset u \<le> offset (objects v ! r)"
        using consistent_obj(1) [OF assms(1) r'] grows_obj(2) [OF assms(2) r'] by simp
      show ?thesis unfolding dr lo using 1 2 3 by blast
    next
      assume "tu_die_offset u \<le> offset (objects v ! r) \<and>
        agrees P (tu_die_offset u) (objects v ! r) \<and> terminator_ok P v (objects v ! r)"
      then show ?thesis unfolding dr lo .
    qed
  qed
  show ?thesis
    unfolding consistent_def using assms(3,4) key by blast
qed

lemma set_parent_unit [simp]:
  "tu_offset (set_parent c d u) = tu_offset u" "tu_die_offset (set_parent c d u) = tu_die_offset u"
  "unit_length (set_parent c d u) = unit_length u"
  "initial_length_field_size (set_parent c d u) = initial_length_field_size u"
  "supplementary_dwarfinfo (set_parent c d u) = supplementary_dwarfinfo u"
  by (simp_all add: set_parent_def)

lemma set_terminator_unit [simp]:
  "tu_offset (set_terminator c d u) = tu_offset u"
  "tu_die_offset (set_terminator c d u) = tu_die_offset u"
  "unit_length (set_terminator c d u) = unit_length u"
  "initial_length_field_size (set_terminator c d u) = initial_length_field_size u"
  "supplementary_dwarfinfo (set_terminator c d u) = supplementary_dwarfinfo u"
  by (simp_all add: set_terminator_def)

lemma grows_set_parent: "grows u (set_parent c d u)"
  by (simp add: grows_def same_entry_def same_unit_def)

lemma grows_set_terminator: "grows u (set_terminator c d u)"
  by (simp add: grows_def same_entry_def same_unit_def)

lemma get_cached_DIE_unit_inv:
  assumes "unit_inv u" "tu_die_offset u \<le> off" "get_cached_DIE P T u off = (res, u')"
  shows "unit_inv u'"
proof -
  have cs: "cache_sorted u" and tf: "top_first u" using assms(1) by (simp_all add: unit_inv_def)
  have cs': "cache_sorted u'" using cs assms(3) by (rule get_cached_DIE_sorted)
  obtain r1 u1 where top: "get_top_DIE P T u = (r1, u1)" by (cases "get_top_DIE P T u")
  have cs1: "cache_sorted u1" using cs top by (rule get_top_DIE_sorted)
  have tf1: "top_first u1" using tf top by (rule get_top_DIE_top_first)
  have su: "same_unit u u1" using top by (rule get_top_DIE_same_unit)
  have "top_first u'"
  proof (cases r1)
    case (Inl e)
    then have "u' = u1" using assms(3) top by (simp add: get_cached_DIE_via_top [OF cs])
    with tf1 show ?thesis by simp
  next
    case (Inr tp)
    then have ne: "diemap u1 \<noteq> []" using top get_top_DIE_nonempty by blast
    have g: "get_cached_DIE P T u1 off = (res, u')"
      using assms(3) top Inr by (simp add: get_cached_DIE_via_top [OF cs])
    have d0: "diemap u1 ! 0 = tu_die_offset u1" using tf1 ne by (simp add: top_first_def)
    show ?thesis
    proof (cases "off \<in> set (diemap u1)")
      case True
      then obtain k where "k < length (diemap u1)" "diemap u1 ! k = off"
        by (auto simp: in_set_conv_nth)
      then have "get_cached_DIE P T u1 off = (Inr (dielist u1 ! k), u1)"
        using get_cached_DIE_hit [OF cs1, of k P T] by simp
      with g tf1 show ?thesis by simp
    next
      case False
      show ?thesis
      proof (cases "DIE_init P off")
        case (Inl e)
        with g False tf1 show ?thesis by (simp add: get_cached_DIE_miss [OF cs1 ne])
      next
        case d: (Inr d)
        let ?i = "bisect_right (diemap u1) off"
        have s: "sorted (diemap u1)" using cs1 by (simp add: cache_sorted_def strict_sorted_sorted)
        have "tu_die_offset u1 \<le> off" using assms(2) su by (simp add: same_unit_def)
        then have i1: "1 \<le> ?i" using s ne d0 by (intro bisect_right_ge_1) simp_all
        have i2: "?i \<le> length (diemap u1)" using s by (rule bisect_right_le)
        have "diemap u' = list_insert (diemap u1) ?i off" "tu_die_offset u' = tu_die_offset u1"
          using g False d by (auto simp: get_cached_DIE_miss [OF cs1 ne])
        then show ?thesis using i1 i2 d0 by (simp add: top_first_def nth_list_insert)
      qed
    qed
  qed
  with cs' show ?thesis by (simp add: unit_inv_def)
qed

lemma lookup_consistent:
  assumes "consistent P u" "tu_die_offset u \<le> off" "P off = Inr p"
  shows "\<exists>c v. get_cached_DIE P T u off = (Inr c, v) \<and> consistent P v \<and> grows u v \<and>
           c < length (objects v) \<and> offset (objects v ! c) = off"
proof (cases "off \<in> set (diemap u)")
  case True
  have cs: "cache_sorted u" using assms(1) by (rule consistent_unit)
  from True obtain k where k: "k < length (diemap u)" "diemap u ! k = off"
    by (auto simp: in_set_conv_nth)
  then have "get_cached_DIE P T u off = (Inr (dielist u ! k), u)"
    using get_cached_DIE_hit [OF cs, of k P T] by simp
  moreover have "dielist u ! k < length (objects u)" "offset (objects u ! (dielist u ! k)) = off"
    using cache_sorted_nth [OF cs k(1)] k(2) by simp_all
  ultimately show ?thesis using assms(1) by (intro exI [of _ "dielist u ! k"] exI [of _ u]) simp
next
  case False
  have cs: "cache_sorted u" and ne: "diemap u \<noteq> []" and ui: "unit_inv u"
    using assms(1) by (rule consistent_unit)+
  obtain d where d: "DIE_init P off = Inr d"
    using assms(3) by (cases p) (simp_all add: DIE_init_def)
  let ?c = "length (objects u)"
  let ?v = "u\<lparr>dielist := list_insert (dielist u) (bisect_right (diemap u) off) ?c,
               diemap := list_insert (diemap u) (bisect_right (diemap u) off) off,
               objects := objects u @ [d]\<rparr>"
  have g: "get_cached_DIE P T u off = (Inr ?c, ?v)"
    using d by (simp add: get_cached_DIE_miss [OF cs ne False])
  have gr: "grows u ?v"
    by (simp add: grows_def same_unit_def same_entry_def nth_append)
  have ui': "unit_inv ?v" using ui assms(2) g by (rule get_cached_DIE_unit_inv)
  have "consistent P ?v"
  proof (rule consistent_grow [OF assms(1) gr ui'])
    show "diemap ?v \<noteq> []" by (simp add: list_insert_def)
  next
    fix r assume r: "r < length (objects ?v)"
    show "(r < length (objects u) \<and> terminator (objects ?v ! r) = terminator (objects u ! r)) \<or>
      (tu_die_offset u \<le> offset (objects ?v ! r) \<and> agrees P (tu_die_offset u) (objects ?v ! r) \<and>
       terminator_ok P ?v (objects ?v ! r))"
    proof (cases "r < length (objects u)")
      case True
      then show ?thesis by (simp add: nth_append)
    next
      case False
      with r have "objects ?v ! r = d" by (simp add: nth_append less_Suc_eq)
      moreover have "offset d = off" "terminator d = None" using d by (rule DIE_init_fields)+
      moreover have "agrees P (tu_die_offset u) d" using d by (rule agrees_DIE_init)
      ultimately show ?thesis using assms(2) by (simp add: terminator_ok_def)
    qed
  qed
  moreover have "offset (objects ?v ! ?c) = off" using DIE_init_fields(1) [OF d] by simp
  ultimately show ?thesis using g gr by (intro exI [of _ ?c] exI [of _ ?v]) simp
qed

lemma set_parent_consistent:
  assumes "consistent P u"
  shows "consistent P (set_parent c d u)"
proof (rule consistent_grow [OF assms grows_set_parent])
  show "unit_inv (set_parent c d u)"
    using consistent_unit(3) [OF assms]
    by (simp add: unit_inv_def cache_sorted_def top_first_def)
  show "diemap (set_parent c d u) \<noteq> []" using consistent_unit(4) [OF assms] by simp
  fix r assume "r < length (objects (set_parent c d u))"
  then show "(r < length (objects u) \<and>
       terminator (objects (set_parent c d u) ! r) = terminator (objects u ! r)) \<or>
      (tu_die_offset u \<le> offset (objects (set_parent c d u) ! r) \<and>
       agrees P (tu_die_offset u) (objects (set_parent c d u) ! r) \<and>
       terminator_ok P (set_parent c d u) (objects (set_parent c d u) ! r))"
    by simp
qed

lemma set_terminator_consistent:
  assumes "consistent P u" "die < length (objects u)" "t < length (objects u)"
    and "tag (objects u ! t) = None"
    and "children_at P (tu_offset u) (offset (objects u ! die) + die_size (objects u ! die)) cs es
           (offset (objects u ! t)) (offset (objects u ! t) + die_size (objects u ! t))"
  shows "consistent P (set_terminator die t u)"
proof (rule consistent_grow [OF assms(1) grows_set_terminator])
  let ?v = "set_terminator die t u"
  show "unit_inv ?v"
    using consistent_unit(3) [OF assms(1)]
    by (simp add: unit_inv_def cache_sorted_def top_first_def)
  show "diemap ?v \<noteq> []" using consistent_unit(4) [OF assms(1)] by simp
  fix r assume r: "r < length (objects ?v)"
  show "(r < length (objects u) \<and> terminator (objects ?v ! r) = terminator (objects u ! r)) \<or>
      (tu_die_offset u \<le> offset (objects ?v ! r) \<and> agrees P (tu_die_offset u) (objects ?v ! r) \<and>
       terminator_ok P ?v (objects ?v ! r))"
  proof (cases "r = die")
    case False
    with r show ?thesis by (simp add: nth_set_terminator)
  next
    case True
    have "terminator (objects ?v ! die) = Some t"
      using assms(2) by (rule set_terminator_terminator)
    then have "terminator_ok P ?v (objects ?v ! die)"
      using assms(3,4,5) by (auto simp: terminator_ok_def)
    moreover have "same_entry (objects u ! die) (objects ?v ! die)"
      by (simp add: same_entry_def)
    then have "agrees P (tu_die_offset u) (objects ?v ! die)"
      using consistent_obj(2) [OF assms(1,2)] agrees_same_entry by blast
    moreover have "tu_die_offset u \<le> offset (objects ?v ! die)"
      using consistent_obj(1) [OF assms(1,2)] by simp
    ultimately show ?thesis using True by blast
  qed
qed

subsection \<open>One step of the loop\<close>

lemma children_loop_null:
  assumes "get_cached_DIE P T u cur = (Inr c, v1)" "tag (objects v1 ! c) = None"
  shows "children_loop (Suc n) P T body die cur u
           = Some (Inr [], set_terminator die c (set_parent c die v1))"
  using assms by (simp add: children_loop_Suc)

lemma children_loop_step:
  assumes "get_cached_DIE P T u cur = (Inr c, v1)" "tag (objects v1 ! c) \<noteq> None"
    and "body c (set_parent c die v1) = Some (Inr ys, v3)"
    and "next_cur_offset n P T c cur v3 = Some (Inr cur', v4)"
    and "children_loop n P T body die cur' v4 = Some (Inr zs, v5)"
  shows "children_loop (Suc n) P T body die cur u = Some (Inr (ys @ zs), v5)"
  using assms by (simp add: children_loop_Suc del: not_None_eq)

lemma consistent_entry:
  assumes "consistent P u" "c < length (objects u)" "offset (objects u ! c) = off"
    and "P off = Inr (Entry tg hc sz ats)"
  shows "tag (objects u ! c) = Some tg" "has_children (objects u ! c) = hc"
    "die_size (objects u ! c) = sz" "tu_die_offset u < off \<Longrightarrow> attributes (objects u ! c) = ats"
  using agrees_Entry [OF consistent_obj(2) [OF assms(1,2)], of tg hc sz ats] assms(3,4)
  by auto

lemma consistent_null:
  assumes "consistent P u" "c < length (objects u)" "offset (objects u ! c) = off"
    and "P off = Inr (Null sz)"
  shows "tag (objects u ! c) = None" "die_size (objects u ! c) = sz"
  using agrees_Null [OF consistent_obj(2) [OF assms(1,2)], of sz] assms(3,4)
  by auto

subsection \<open>The scan for the terminator\<close>

lemma scan_correct:
  shows "entry_at P b off es e \<Longrightarrow>
      consistent P u \<Longrightarrow> tu_offset u = b \<Longrightarrow> tu_die_offset u < off \<Longrightarrow>
      c < length (objects u) \<Longrightarrow> offset (objects u ! c) = off \<Longrightarrow>
      \<exists>n v. next_cur_offset n P T c off u = Some (Inr e, v) \<and> consistent P v \<and> grows u v"
    and "children_at P b off cs es t e \<Longrightarrow>
      consistent P u \<Longrightarrow> tu_offset u = b \<Longrightarrow> tu_die_offset u < off \<Longrightarrow>
      die < length (objects u) \<Longrightarrow>
      children_at P b (offset (objects u ! die) + die_size (objects u ! die)) cs0 es0 t e \<Longrightarrow>
      \<exists>n v tr. children_loop n P T pass die off u = Some (Inr [], v) \<and> consistent P v \<and>
        grows u v \<and> terminator (objects v ! die) = Some tr \<and> tr < length (objects v) \<and>
        offset (objects v ! tr) = t \<and> offset (objects v ! tr) + die_size (objects v ! tr) = e"
proof (induction arbitrary: u c and u die cs0 es0 rule: entry_at_children_at.inducts)
  case (leaf off tg sz ats)
  have "\<not> has_children (objects u ! c)" "die_size (objects u ! c) = sz"
    using consistent_entry [OF leaf.prems(1,4,5) leaf.IH] by simp_all
  then have "next_cur_offset (Suc 0) P T c off u = Some (Inr (off + sz), u)"
    by (simp add: next_cur_offset_Suc)
  with leaf.prems(1) show ?case by (intro exI [of _ "Suc 0"] exI [of _ u]) simp
next
  case (node off tg sz ats cs es t e)
  note p = node.IH(1) and ch = node.IH(2) and IH = node.IH(3) and sib = node.IH(4)
  have obj: "has_children (objects u ! c)" "die_size (objects u ! c) = sz"
    "attributes (objects u ! c) = ats"
    using consistent_entry [OF node.prems(1,4,5) p] node.prems(3) by simp_all
  show ?case
  proof (cases "map_of ats ''DW_AT_sibling''")
    case (Some s)
    with sib have "sibling_offset b s = Inr e" by (rule sibling_ok_offset)
    then have "next_cur_offset (Suc 0) P T c off u = Some (Inr e, u)"
      using obj Some node.prems(2) by (simp add: next_cur_offset_Suc)
    with node.prems(1) show ?thesis by (intro exI [of _ "Suc 0"] exI [of _ u]) simp
  next
    case None
    show ?thesis
    proof (cases "terminator (objects u ! c)")
      case (Some tr)
      have "terminator_ok P u (objects u ! c)" using node.prems(1,4) by (rule consistent_obj)
      then obtain cs' es' where "children_at P b (off + sz) cs' es'
          (offset (objects u ! tr)) (offset (objects u ! tr) + die_size (objects u ! tr))"
        using Some node.prems(2,5) obj(2) by (auto simp: terminator_ok_def)
      from layout_deterministic(2) [OF ch this]
      have "offset (objects u ! tr) + die_size (objects u ! tr) = e" by simp
      then have "next_cur_offset (Suc 0) P T c off u = Some (Inr e, u)"
        using obj None Some by (simp add: next_cur_offset_Suc)
      with node.prems(1) show ?thesis by (intro exI [of _ "Suc 0"] exI [of _ u]) simp
    next
      case tn: None
      have lo: "tu_die_offset u < off + sz" using node.prems(3) node.hyps by simp
      have link: "children_at P b (offset (objects u ! c) + die_size (objects u ! c)) cs es t e"
        using ch node.prems(5) obj(2) by simp
      from IH [OF node.prems(1,2) lo node.prems(4) link]
      obtain n v tr where r: "children_loop n P T pass c (off + sz) u = Some (Inr [], v)"
        "consistent P v" "grows u v" "terminator (objects v ! c) = Some tr"
        "offset (objects v ! tr) + die_size (objects v ! tr) = e"
        by blast
      have "iter_DIE_children (Suc n) P T pass c u = Some (Inr [], v)"
        using r(1) obj node.prems(5) by (simp add: iter_DIE_children_Suc)
      then have "next_cur_offset (Suc (Suc n)) P T c off u = Some (Inr e, v)"
        using obj None tn r(4,5) by (simp add: next_cur_offset_Suc [of "Suc n"])
      with r(2,3) show ?thesis by blast
    qed
  qed
next
  case (nil off sz)
  from lookup_consistent [OF nil.prems(1) _ nil.IH, of T] nil.prems(3)
  obtain c v1 where g: "get_cached_DIE P T u off = (Inr c, v1)" and v1: "consistent P v1"
    "grows u v1" "c < length (objects v1)" "offset (objects v1 ! c) = off"
    by auto
  have null: "tag (objects v1 ! c) = None" "die_size (objects v1 ! c) = sz"
    using consistent_null [OF v1(1,3,4) nil.IH] by simp_all
  let ?v2 = "set_parent c die v1"
  let ?v = "set_terminator die c ?v2"
  have loop: "children_loop (Suc 0) P T pass die off u = Some (Inr [], ?v)"
    using g null(1) by (rule children_loop_null)
  have d1: "die < length (objects v1)" using grows_obj(1) [OF v1(2) nil.prems(4)] .
  have dfields: "offset (objects v1 ! die) = offset (objects u ! die)"
    "die_size (objects v1 ! die) = die_size (objects u ! die)"
    using grows_obj [OF v1(2) nil.prems(4)] by simp_all
  have c2: "consistent P ?v2" using v1(1) by (rule set_parent_consistent)
  have "consistent P ?v"
  proof (rule set_terminator_consistent [OF c2, where cs = cs0 and es = es0])
    show "die < length (objects ?v2)" "c < length (objects ?v2)" using d1 v1(3) by simp_all
    show "tag (objects ?v2 ! c) = None" using null(1) by simp
    show "children_at P (tu_offset ?v2)
        (offset (objects ?v2 ! die) + die_size (objects ?v2 ! die)) cs0 es0
        (offset (objects ?v2 ! c)) (offset (objects ?v2 ! c) + die_size (objects ?v2 ! c))"
      using nil.prems(5) nil.prems(2) grows_unit(1) [OF v1(2)] dfields v1(4) null(2) by simp
  qed
  moreover have "grows u ?v"
    by (rule grows_trans [OF v1(2) grows_trans [OF grows_set_parent grows_set_terminator]])
  moreover have "terminator (objects ?v ! die) = Some c"
    using d1 by (intro set_terminator_terminator) simp
  moreover have "c < length (objects ?v)" "offset (objects ?v ! c) = off"
    "offset (objects ?v ! c) + die_size (objects ?v ! c) = off + sz"
    using v1(3,4) null(2) by simp_all
  ultimately show ?case using loop by blast
next
  case (cons off es1 e1 cs es2 t e)
  note en = cons.IH(1) and IH1 = cons.IH(2) and IH2 = cons.IH(4)
  obtain tg hc sz ats where p: "P off = Inr (Entry tg hc sz ats)"
    using entry_at_parsed [OF en] by blast
  from lookup_consistent [OF cons.prems(1) _ p, of T] cons.prems(3)
  obtain c v1 where g: "get_cached_DIE P T u off = (Inr c, v1)" and v1: "consistent P v1"
    "grows u v1" "c < length (objects v1)" "offset (objects v1 ! c) = off"
    by auto
  have tg: "tag (objects v1 ! c) \<noteq> None"
    using consistent_entry(1) [OF v1(1,3,4) p] by simp
  let ?v2 = "set_parent c die v1"
  have c2: "consistent P ?v2" using v1(1) by (rule set_parent_consistent)
  have g2: "grows u ?v2" by (rule grows_trans [OF v1(2) grows_set_parent])
  have b2: "tu_offset ?v2 = b" "tu_die_offset ?v2 < off"
    using grows_unit [OF g2] cons.prems(2,3) by simp_all
  have "c < length (objects ?v2)" "offset (objects ?v2 ! c) = off" using v1(3,4) by simp_all
  from IH1 [OF c2 b2 this]
  obtain n1 v3 where nx: "next_cur_offset n1 P T c off ?v2 = Some (Inr e1, v3)"
    and v3: "consistent P v3" "grows ?v2 v3" by blast
  have g3: "grows u v3" using g2 v3(2) by (rule grows_trans)
  have b3: "tu_offset v3 = b" "tu_die_offset v3 < e1"
    using grows_unit [OF g3] cons.prems(2,3) layout_forward(1) [OF en] by simp_all
  have d3: "die < length (objects v3)" using grows_obj(1) [OF g3 cons.prems(4)] .
  have link: "children_at P b (offset (objects v3 ! die) + die_size (objects v3 ! die)) cs0 es0 t e"
    using cons.prems(5) grows_obj(2,3) [OF g3 cons.prems(4)] by simp
  from IH2 [OF v3(1) b3 d3 link]
  obtain n2 v tr where lp: "children_loop n2 P T pass die e1 v3 = Some (Inr [], v)"
    and v: "consistent P v" "grows v3 v" "terminator (objects v ! die) = Some tr"
      "tr < length (objects v)" "offset (objects v ! tr) = t"
      "offset (objects v ! tr) + die_size (objects v ! tr) = e" by blast
  let ?n = "max n1 n2"
  have nx': "next_cur_offset ?n P T c off ?v2 = Some (Inr e1, v3)"
    using nx by (rule next_cur_offset_mono) simp
  have lp': "children_loop ?n P T pass die e1 v3 = Some (Inr [], v)"
    using lp by (rule children_loop_mono) simp_all
  have "pass c ?v2 = Some (Inr [], ?v2)" by (simp add: pass_def)
  from children_loop_step [OF g tg this nx' lp']
  have "children_loop (Suc ?n) P T pass die off u = Some (Inr [], v)" by simp
  moreover have "grows u v" using g3 v(2) by (rule grows_trans)
  ultimately show ?case using v by blast
qed

subsection \<open>Enumerations\<close>

lemma valid_refs_simps [simp]:
  "valid_refs u []" "valid_refs u (Some r # ys) \<longleftrightarrow> r < length (objects u) \<and> valid_refs u ys"
  "valid_refs u (xs @ ys) \<longleftrightarrow> valid_refs u xs \<and> valid_refs u ys"
  by (simp_all add: valid_refs_def)

lemma offsets_of_simps [simp]:
  "offsets_of u [] = []" "offsets_of u (Some r # ys) = Some (offset (objects u ! r)) # offsets_of u ys"
  "offsets_of u (xs @ ys) = offsets_of u xs @ offsets_of u ys"
  by (simp_all add: offsets_of_def)

lemma enumeration_grows:
  assumes "valid_refs u ys" "grows u v"
  shows "valid_refs v ys" "offsets_of v ys = offsets_of u ys"
proof -
  have "valid_refs v ys \<and> offsets_of v ys = offsets_of u ys"
    using assms(1)
  proof (induction ys)
    case Nil
    show ?case by simp
  next
    case (Cons y ys)
    then obtain r where y: "y = Some r" "r < length (objects u)" and ys: "valid_refs u ys"
      by (cases y) (auto simp: valid_refs_def)
    from grows_obj(1,2) [OF assms(2) y(2)] Cons.IH [OF ys] y show ?case by simp
  qed
  then show "valid_refs v ys" "offsets_of v ys = offsets_of u ys" by simp_all
qed

lemma keep_correct:
  shows "entry_at P b off es e \<Longrightarrow> True"
    and "children_at P b off cs es t e \<Longrightarrow>
      consistent P u \<Longrightarrow> tu_offset u = b \<Longrightarrow> tu_die_offset u < off \<Longrightarrow>
      die < length (objects u) \<Longrightarrow>
      children_at P b (offset (objects u ! die) + die_size (objects u ! die)) cs0 es0 t e \<Longrightarrow>
      \<exists>n v ys tr. children_loop n P T keep die off u = Some (Inr ys, v) \<and> consistent P v \<and>
        grows u v \<and> valid_refs v ys \<and> offsets_of v ys = map Some cs \<and>
        terminator (objects v ! die) = Some tr \<and> tr < length (objects v) \<and>
        offset (objects v ! tr) = t"
proof (induction arbitrary: and u die cs0 es0 rule: entry_at_children_at.inducts)
  case (leaf off tg sz ats)
  show ?case ..
next
  case (node off tg sz ats cs es t e)
  show ?case ..
next
  case (nil off sz)
  from lookup_consistent [OF nil.prems(1) _ nil.IH, of T] nil.prems(3)
  obtain c v1 where g: "get_cached_DIE P T u off = (Inr c, v1)" and v1: "consistent P v1"
    "grows u v1" "c < length (objects v1)" "offset (objects v1 ! c) = off"
    by auto
  have null: "tag (objects v1 ! c) = None" "die_size (objects v1 ! c) = sz"
    using consistent_null [OF v1(1,3,4) nil.IH] by simp_all
  let ?v2 = "set_parent c die v1"
  let ?v = "set_terminator die c ?v2"
  have loop: "children_loop (Suc 0) P T keep die off u = Some (Inr [], ?v)"
    using g null(1) by (rule children_loop_null)
  have d1: "die < length (objects v1)" using grows_obj(1) [OF v1(2) nil.prems(4)] .
  have dfields: "offset (objects v1 ! die) = offset (objects u ! die)"
    "die_size (objects v1 ! die) = die_size (objects u ! die)"
    using grows_obj [OF v1(2) nil.prems(4)] by simp_all
  have c2: "consistent P ?v2" using v1(1) by (rule set_parent_consistent)
  have "consistent P ?v"
  proof (rule set_terminator_consistent [OF c2, where cs = cs0 and es = es0])
    show "die < length (objects ?v2)" "c < length (objects ?v2)" using d1 v1(3) by simp_all
    show "tag (objects ?v2 ! c) = None" using null(1) by simp
    show "children_at P (tu_offset ?v2)
        (offset (objects ?v2 ! die) + die_size (objects ?v2 ! die)) cs0 es0
        (offset (objects ?v2 ! c)) (offset (objects ?v2 ! c) + die_size (objects ?v2 ! c))"
      using nil.prems(5) nil.prems(2) grows_unit(1) [OF v1(2)] dfields v1(4) null(2) by simp
  qed
  moreover have "grows u ?v"
    by (rule grows_trans [OF v1(2) grows_trans [OF grows_set_parent grows_set_terminator]])
  moreover have "terminator (objects ?v ! die) = Some c"
    using d1 by (intro set_terminator_terminator) simp
  moreover have "c < length (objects ?v)" "offset (objects ?v ! c) = off"
    using v1(3,4) by simp_all
  ultimately show ?case using loop
    by - (rule exI [of _ "Suc 0"], rule exI [of _ ?v], rule exI [of _ "[]"], rule exI [of _ c], simp)
next
  case (cons off es1 e1 cs es2 t e)
  note en = cons.IH(1) and IH2 = cons.IH(4)
  obtain tg hc sz ats where p: "P off = Inr (Entry tg hc sz ats)"
    using entry_at_parsed [OF en] by blast
  from lookup_consistent [OF cons.prems(1) _ p, of T] cons.prems(3)
  obtain c v1 where g: "get_cached_DIE P T u off = (Inr c, v1)" and v1: "consistent P v1"
    "grows u v1" "c < length (objects v1)" "offset (objects v1 ! c) = off"
    by auto
  have tg: "tag (objects v1 ! c) \<noteq> None"
    using consistent_entry(1) [OF v1(1,3,4) p] by simp
  let ?v2 = "set_parent c die v1"
  have c2: "consistent P ?v2" using v1(1) by (rule set_parent_consistent)
  have g2: "grows u ?v2" by (rule grows_trans [OF v1(2) grows_set_parent])
  have b2: "tu_offset ?v2 = b" "tu_die_offset ?v2 < off"
    using grows_unit [OF g2] cons.prems(2,3) by simp_all
  have cv2: "c < length (objects ?v2)" "offset (objects ?v2 ! c) = off" using v1(3,4) by simp_all
  from scan_correct(1) [OF en c2 b2 cv2, of T]
  obtain n1 v3 where nx: "next_cur_offset n1 P T c off ?v2 = Some (Inr e1, v3)"
    and v3: "consistent P v3" "grows ?v2 v3" by blast
  have g3: "grows u v3" using g2 v3(2) by (rule grows_trans)
  have b3: "tu_offset v3 = b" "tu_die_offset v3 < e1"
    using grows_unit [OF g3] cons.prems(2,3) layout_forward(1) [OF en] by simp_all
  have d3: "die < length (objects v3)" using grows_obj(1) [OF g3 cons.prems(4)] .
  have link: "children_at P b (offset (objects v3 ! die) + die_size (objects v3 ! die)) cs0 es0 t e"
    using cons.prems(5) grows_obj(2,3) [OF g3 cons.prems(4)] by simp
  from IH2 [OF v3(1) b3 d3 link]
  obtain n2 v zs tr where lp: "children_loop n2 P T keep die e1 v3 = Some (Inr zs, v)"
    and v: "consistent P v" "grows v3 v" "valid_refs v zs" "offsets_of v zs = map Some cs"
      "terminator (objects v ! die) = Some tr" "tr < length (objects v)"
      "offset (objects v ! tr) = t" by blast
  let ?n = "max n1 n2"
  have nx': "next_cur_offset ?n P T c off ?v2 = Some (Inr e1, v3)"
    using nx by (rule next_cur_offset_mono) simp
  have lp': "children_loop ?n P T keep die e1 v3 = Some (Inr zs, v)"
    using lp by (rule children_loop_mono) simp_all
  have "keep c ?v2 = Some (Inr [Some c], ?v2)" by (simp add: keep_def)
  from children_loop_step [OF g tg this nx' lp']
  have res: "children_loop (Suc ?n) P T keep die off u = Some (Inr (Some c # zs), v)" by simp
  have gv: "grows ?v2 v" using v3(2) v(2) by (rule grows_trans)
  have "c < length (objects v)" "offset (objects v ! c) = off"
    using grows_obj(1,2) [OF gv cv2(1)] cv2(2) by simp_all
  then have "valid_refs v (Some c # zs)" "offsets_of v (Some c # zs) = map Some (off # cs)"
    using v(3,4) by simp_all
  moreover have "grows u v" using g3 v(2) by (rule grows_trans)
  ultimately show ?case using res v(1,5,6,7) by blast
qed

declare iter_DIE_subtree.simps [simp del]

lemma imports_off_Cons: "imports_off P u (off # es) \<Longrightarrow> imports_off P u es"
  by (auto simp: imports_off_def)

lemma imports_off_append:
  assumes "imports_off P u (es1 @ es2)"
  shows "imports_off P u es1" "imports_off P u es2"
  using assms by (auto simp: imports_off_def)

lemma imports_off_grows: "imports_off P u es \<Longrightarrow> grows u v \<Longrightarrow> imports_off P v es"
  using grows_unit(3) [of u v] by (simp add: imports_off_def)

lemma no_import:
  assumes "imports_off P u es" "offset (objects u ! c) \<in> set es" "consistent P u"
    and "c < length (objects u)" "P (offset (objects u ! c)) = Inr (Entry tg hc sz ats)"
  shows "\<not> (tag (objects u ! c) = Some ''DW_TAG_imported_unit'' \<and> supplementary_dwarfinfo u)"
proof
  assume a: "tag (objects u ! c) = Some ''DW_TAG_imported_unit'' \<and> supplementary_dwarfinfo u"
  have "tag (objects u ! c) = Some tg" using consistent_entry(1) [OF assms(3,4) refl assms(5)] .
  with a have "tg = ''DW_TAG_imported_unit''" by simp
  with assms(5) have "imported_unit_at P (offset (objects u ! c))"
    by (simp add: imported_unit_at_def)
  with a assms(1,2) show False by (auto simp: imports_off_def)
qed

lemma iter_DIE_subtree_Suc_plain:
  assumes "\<not> (tag (objects u ! c) = Some ''DW_TAG_imported_unit'' \<and> supplementary_dwarfinfo u)"
  shows "iter_DIE_subtree (Suc n) P T G c u =
     (if has_children (objects u ! c) then
        (case iter_DIE_children n P T (iter_DIE_subtree n P T G) c u of
           None \<Rightarrow> None
         | Some (Inl e, u2) \<Rightarrow> Some (Inl e, u2)
         | Some (Inr ys, u2) \<Rightarrow> Some (Inr (Some c # ys @ [terminator (objects u2 ! c)]), u2))
      else Some (Inr [Some c], u))"
proof -
  have "(if tag (objects u ! c) = Some ''DW_TAG_imported_unit'' \<and> supplementary_dwarfinfo u
         then G c u else (Inr c, u)) = (Inr c, u)"
    using assms by (rule if_not_P)
  then show ?thesis by (simp add: iter_DIE_subtree.simps(2) [of n])
qed

lemma iter_DIE_subtree_le:
  assumes "n \<le> m" "iter_DIE_subtree n P T G c v = Some x"
  shows "iter_DIE_subtree m P T G c v = Some x"
  using assms(2,1) by (rule iter_DIE_subtree_mono)

lemma children_loop_subtree_fuel:
  assumes "children_loop n P T (iter_DIE_subtree k P T G) die cur u = Some r" "n \<le> m" "k \<le> l"
  shows "children_loop m P T (iter_DIE_subtree l P T G) die cur u = Some r"
  using assms(1,2)
proof (rule children_loop_mono)
  fix c v x assume "iter_DIE_subtree k P T G c v = Some x"
  then show "iter_DIE_subtree l P T G c v = Some x" using assms(3) by (rule iter_DIE_subtree_mono)
qed

lemma subtree_correct:
  shows "entry_at P b off es e \<Longrightarrow>
      consistent P u \<Longrightarrow> tu_offset u = b \<Longrightarrow> tu_die_offset u \<le> off \<Longrightarrow> imports_off P u es \<Longrightarrow>
      c < length (objects u) \<Longrightarrow> offset (objects u ! c) = off \<Longrightarrow>
      \<exists>n v ys. iter_DIE_subtree n P T G c u = Some (Inr ys, v) \<and> consistent P v \<and> grows u v \<and>
        valid_refs v ys \<and> offsets_of v ys = map Some es"
    and "children_at P b off cs es t e \<Longrightarrow>
      consistent P u \<Longrightarrow> tu_offset u = b \<Longrightarrow> tu_die_offset u < off \<Longrightarrow> imports_off P u es \<Longrightarrow>
      die < length (objects u) \<Longrightarrow>
      children_at P b (offset (objects u ! die) + die_size (objects u ! die)) cs0 es0 t e \<Longrightarrow>
      \<exists>n v ys tr. children_loop n P T (iter_DIE_subtree n P T G) die off u = Some (Inr ys, v) \<and>
        consistent P v \<and> grows u v \<and> valid_refs v ys \<and> offsets_of v ys = map Some es \<and>
        terminator (objects v ! die) = Some tr \<and> tr < length (objects v) \<and>
        offset (objects v ! tr) = t"
proof (induction arbitrary: u c and u die cs0 es0 rule: entry_at_children_at.inducts)
  case (leaf off tg sz ats)
  have p: "P (offset (objects u ! c)) = Inr (Entry tg False sz ats)"
    using leaf.IH leaf.prems(6) by simp
  have "\<not> has_children (objects u ! c)"
    using consistent_entry(2) [OF leaf.prems(1,5,6) leaf.IH] by simp
  then have "iter_DIE_subtree (Suc 0) P T G c u = Some (Inr [Some c], u)"
    using leaf.prems(6)
    by (simp add: iter_DIE_subtree_Suc_plain [OF no_import [OF leaf.prems(4) _ leaf.prems(1,5) p]])
  moreover have "valid_refs u [Some c]" "offsets_of u [Some c] = map Some [off]"
    using leaf.prems(5,6) by simp_all
  ultimately show ?case using leaf.prems(1)
    by (intro exI [of _ "Suc 0"] exI [of _ u] exI [of _ "[Some c]"]) simp
next
  case (node off tg sz ats cs es t e)
  note p = node.IH(1) and ch = node.IH(2) and IH = node.IH(3)
  have p': "P (offset (objects u ! c)) = Inr (Entry tg True sz ats)"
    using p node.prems(6) by simp
  have obj: "has_children (objects u ! c)" "die_size (objects u ! c) = sz"
    using consistent_entry [OF node.prems(1,5,6) p] by simp_all
  have ni: "\<not> (tag (objects u ! c) = Some ''DW_TAG_imported_unit'' \<and> supplementary_dwarfinfo u)"
    using no_import [OF node.prems(4) _ node.prems(1,5) p'] node.prems(6) by simp
  have io: "imports_off P u es"
    using imports_off_append(1) [OF imports_off_Cons [OF node.prems(4)]] .
  have lo: "tu_die_offset u < off + sz" using node.prems(3) node.hyps by simp
  have link: "children_at P b (offset (objects u ! c) + die_size (objects u ! c)) cs es t e"
    using ch node.prems(6) obj(2) by simp
  from IH [OF node.prems(1,2) lo io node.prems(5) link]
  obtain n v ys tr where
    lp: "children_loop n P T (iter_DIE_subtree n P T G) c (off + sz) u = Some (Inr ys, v)"
    and v: "consistent P v" "grows u v" "valid_refs v ys" "offsets_of v ys = map Some es"
      "terminator (objects v ! c) = Some tr" "tr < length (objects v)"
      "offset (objects v ! tr) = t" by blast
  have "children_loop n P T (iter_DIE_subtree (Suc n) P T G) c (off + sz) u = Some (Inr ys, v)"
    using lp by (rule children_loop_subtree_fuel) simp_all
  then have "iter_DIE_children (Suc n) P T (iter_DIE_subtree (Suc n) P T G) c u = Some (Inr ys, v)"
    using obj node.prems(6) by (simp add: iter_DIE_children_Suc)
  then have res: "iter_DIE_subtree (Suc (Suc n)) P T G c u
      = Some (Inr (Some c # ys @ [Some tr]), v)"
    using obj(1) v(5) by (simp add: iter_DIE_subtree_Suc_plain [OF ni])
  have "c < length (objects v)" "offset (objects v ! c) = off"
    using grows_obj(1,2) [OF v(2) node.prems(5)] node.prems(6) by simp_all
  then have "valid_refs v (Some c # ys @ [Some tr])"
    "offsets_of v (Some c # ys @ [Some tr]) = map Some (off # es @ [t])"
    using v(3,4,6,7) by simp_all
  with res v(1,2) show ?case by blast
next
  case (nil off sz)
  from lookup_consistent [OF nil.prems(1) _ nil.IH, of T] nil.prems(3)
  obtain c v1 where g: "get_cached_DIE P T u off = (Inr c, v1)" and v1: "consistent P v1"
    "grows u v1" "c < length (objects v1)" "offset (objects v1 ! c) = off"
    by auto
  have null: "tag (objects v1 ! c) = None" "die_size (objects v1 ! c) = sz"
    using consistent_null [OF v1(1,3,4) nil.IH] by simp_all
  let ?v2 = "set_parent c die v1"
  let ?v = "set_terminator die c ?v2"
  have loop: "children_loop (Suc 0) P T (iter_DIE_subtree (Suc 0) P T G) die off u = Some (Inr [], ?v)"
    using g null(1) by (rule children_loop_null)
  have d1: "die < length (objects v1)" using grows_obj(1) [OF v1(2) nil.prems(5)] .
  have dfields: "offset (objects v1 ! die) = offset (objects u ! die)"
    "die_size (objects v1 ! die) = die_size (objects u ! die)"
    using grows_obj [OF v1(2) nil.prems(5)] by simp_all
  have c2: "consistent P ?v2" using v1(1) by (rule set_parent_consistent)
  have "consistent P ?v"
  proof (rule set_terminator_consistent [OF c2, where cs = cs0 and es = es0])
    show "die < length (objects ?v2)" "c < length (objects ?v2)" using d1 v1(3) by simp_all
    show "tag (objects ?v2 ! c) = None" using null(1) by simp
    show "children_at P (tu_offset ?v2)
        (offset (objects ?v2 ! die) + die_size (objects ?v2 ! die)) cs0 es0
        (offset (objects ?v2 ! c)) (offset (objects ?v2 ! c) + die_size (objects ?v2 ! c))"
      using nil.prems(6) nil.prems(2) grows_unit(1) [OF v1(2)] dfields v1(4) null(2) by simp
  qed
  moreover have "grows u ?v"
    by (rule grows_trans [OF v1(2) grows_trans [OF grows_set_parent grows_set_terminator]])
  moreover have "terminator (objects ?v ! die) = Some c"
    using d1 by (intro set_terminator_terminator) simp
  moreover have "c < length (objects ?v)" "offset (objects ?v ! c) = off"
    using v1(3,4) by simp_all
  ultimately show ?case using loop
    by - (rule exI [of _ "Suc 0"], rule exI [of _ ?v], rule exI [of _ "[]"], rule exI [of _ c], simp)
next
  case (cons off es1 e1 cs es2 t e)
  note en = cons.IH(1) and IH1 = cons.IH(2) and IH2 = cons.IH(4)
  obtain tg hc sz ats where p: "P off = Inr (Entry tg hc sz ats)"
    using entry_at_parsed [OF en] by blast
  from lookup_consistent [OF cons.prems(1) _ p, of T] cons.prems(3)
  obtain c v1 where g: "get_cached_DIE P T u off = (Inr c, v1)" and v1: "consistent P v1"
    "grows u v1" "c < length (objects v1)" "offset (objects v1 ! c) = off"
    by auto
  have tg: "tag (objects v1 ! c) \<noteq> None"
    using consistent_entry(1) [OF v1(1,3,4) p] by simp
  let ?v2 = "set_parent c die v1"
  have c2: "consistent P ?v2" using v1(1) by (rule set_parent_consistent)
  have g2: "grows u ?v2" by (rule grows_trans [OF v1(2) grows_set_parent])
  have b2: "tu_offset ?v2 = b" "tu_die_offset ?v2 < off" "tu_die_offset ?v2 \<le> off"
    using grows_unit [OF g2] cons.prems(2,3) by simp_all
  have i2: "imports_off P ?v2 es1"
    using imports_off_append(1) [OF cons.prems(4)] g2 by (rule imports_off_grows)
  have cv2: "c < length (objects ?v2)" "offset (objects ?v2 ! c) = off" using v1(3,4) by simp_all
  from IH1 [OF c2 b2(1,3) i2 cv2]
  obtain n0 w ys where sub: "iter_DIE_subtree n0 P T G c ?v2 = Some (Inr ys, w)"
    and w: "consistent P w" "grows ?v2 w" "valid_refs w ys" "offsets_of w ys = map Some es1"
    by blast
  have bw: "tu_offset w = b" "tu_die_offset w < off"
    using grows_unit [OF w(2)] b2 by simp_all
  have cw: "c < length (objects w)" "offset (objects w ! c) = off"
    using grows_obj(1,2) [OF w(2) cv2(1)] cv2(2) by simp_all
  from scan_correct(1) [OF en w(1) bw cw, of T]
  obtain n1 v3 where nx: "next_cur_offset n1 P T c off w = Some (Inr e1, v3)"
    and v3: "consistent P v3" "grows w v3" by blast
  have g3: "grows u v3" by (rule grows_trans [OF g2 grows_trans [OF w(2) v3(2)]])
  have b3: "tu_offset v3 = b" "tu_die_offset v3 < e1"
    using grows_unit [OF g3] cons.prems(2,3) layout_forward(1) [OF en] by simp_all
  have i3: "imports_off P v3 es2"
    using imports_off_append(2) [OF cons.prems(4)] g3 by (rule imports_off_grows)
  have d3: "die < length (objects v3)" using grows_obj(1) [OF g3 cons.prems(5)] .
  have link: "children_at P b (offset (objects v3 ! die) + die_size (objects v3 ! die)) cs0 es0 t e"
    using cons.prems(6) grows_obj(2,3) [OF g3 cons.prems(5)] by simp
  from IH2 [OF v3(1) b3 i3 d3 link]
  obtain n2 v zs tr
    where lp: "children_loop n2 P T (iter_DIE_subtree n2 P T G) die e1 v3 = Some (Inr zs, v)"
    and v: "consistent P v" "grows v3 v" "valid_refs v zs" "offsets_of v zs = map Some es2"
      "terminator (objects v ! die) = Some tr" "tr < length (objects v)"
      "offset (objects v ! tr) = t" by blast
  define n where "n = max n0 (max n1 n2)"
  have le: "n0 \<le> n" "n1 \<le> n" "n2 \<le> n" by (simp_all add: n_def)
  have sub': "iter_DIE_subtree n P T G c ?v2 = Some (Inr ys, w)"
    using sub le(1) by (rule iter_DIE_subtree_mono)
  have nx': "next_cur_offset n P T c off w = Some (Inr e1, v3)"
    using nx le(2) by (rule next_cur_offset_mono)
  have lp': "children_loop n P T (iter_DIE_subtree n P T G) die e1 v3 = Some (Inr zs, v)"
    using lp le(3) le(3) by (rule children_loop_subtree_fuel)
  from children_loop_step [OF g tg sub' nx' lp']
  have "children_loop (Suc n) P T (iter_DIE_subtree n P T G) die off u = Some (Inr (ys @ zs), v)" .
  then have res: "children_loop (Suc n) P T (iter_DIE_subtree (Suc n) P T G) die off u
      = Some (Inr (ys @ zs), v)"
    by (rule children_loop_subtree_fuel) simp_all
  have gw: "grows w v" using v3(2) v(2) by (rule grows_trans)
  have "valid_refs v (ys @ zs)" "offsets_of v (ys @ zs) = map Some (es1 @ es2)"
    using enumeration_grows [OF w(3) gw] w(4) v(3,4) by simp_all
  moreover have "grows u v" using g3 v(2) by (rule grows_trans)
  ultimately show ?case using res v(1,5,6,7) by blast
qed

subsection \<open>What every run of the iteration preserves\<close>

lemma iter_preserves_all:
  assumes look: "\<And>u off res u'. I u \<Longrightarrow> get_cached_DIE P T u off = (res, u') \<Longrightarrow> I u'"
    and par: "\<And>c d u. I u \<Longrightarrow> I (set_parent c d u)"
    and ter: "\<And>c d u. I u \<Longrightarrow> I (set_terminator c d u)"
  shows "(\<forall>body die u r u'. (\<forall>c v x v'. I v \<longrightarrow> body c v = Some (x, v') \<longrightarrow> I v') \<longrightarrow> I u \<longrightarrow>
            iter_DIE_children n P T body die u = Some (r, u') \<longrightarrow> I u') \<and>
         (\<forall>body die cur u r u'. (\<forall>c v x v'. I v \<longrightarrow> body c v = Some (x, v') \<longrightarrow> I v') \<longrightarrow> I u \<longrightarrow>
            children_loop n P T body die cur u = Some (r, u') \<longrightarrow> I u') \<and>
         (\<forall>child cur u r u'. I u \<longrightarrow> next_cur_offset n P T child cur u = Some (r, u') \<longrightarrow> I u')"
proof (induction n)
  case 0
  show ?case by (simp add: iter_DIE_children.simps children_loop.simps next_cur_offset.simps)
next
  case (Suc n)
  have IH1: "I u'" if "\<forall>c v x v'. I v \<longrightarrow> body c v = Some (x, v') \<longrightarrow> I v'" "I u"
    "iter_DIE_children n P T body die u = Some (r, u')" for body die u r u'
    using Suc that by blast
  have IH2: "I u'" if "\<forall>c v x v'. I v \<longrightarrow> body c v = Some (x, v') \<longrightarrow> I v'" "I u"
    "children_loop n P T body die cur u = Some (r, u')" for body die cur u r u'
    using Suc that by blast
  have IH3: "I u'" if "I u" "next_cur_offset n P T child cur u = Some (r, u')" for child cur u r u'
    using Suc that by blast
  have A: "I u'" if b: "\<forall>c v x v'. I v \<longrightarrow> body c v = Some (x, v') \<longrightarrow> I v'" and i: "I u"
    and h: "iter_DIE_children (Suc n) P T body die u = Some (r, u')" for body die u r u'
  proof (cases "has_children (objects u ! die)")
    case False
    with h i show ?thesis by (simp add: iter_DIE_children_Suc)
  next
    case True
    with h have "children_loop n P T body die
        (offset (objects u ! die) + die_size (objects u ! die)) u = Some (r, u')"
      by (simp add: iter_DIE_children_Suc)
    with b i show ?thesis by (rule IH2)
  qed
  have C: "I u'" if i: "I u" and h: "next_cur_offset (Suc n) P T child cur u = Some (r, u')"
    for child cur u r u'
  proof (cases "\<not> has_children (objects u ! child) \<or>
      map_of (attributes (objects u ! child)) ''DW_AT_sibling'' \<noteq> None")
    case True
    with h i show ?thesis by (auto simp: next_cur_offset_Suc split: if_splits)
  next
    case False
    let ?d = "if terminator (objects u ! child) = None
              then iter_DIE_children n P T pass child u else Some (Inr [], u)"
    from h False obtain x v where x: "?d = Some (x, v)" and uv: "u' = v"
      by (cases ?d) (auto simp: next_cur_offset_Suc split: sum.splits option.splits)
    have "I v"
    proof (cases "terminator (objects u ! child) = None")
      case True
      with x have "iter_DIE_children n P T pass child u = Some (x, v)" by simp
      moreover have "\<forall>c v x v'. I v \<longrightarrow> pass c v = Some (x, v') \<longrightarrow> I v'"
        by (simp add: pass_def)
      ultimately show ?thesis using i IH1 by blast
    next
      case False
      with x i show ?thesis by auto
    qed
    with uv show ?thesis by simp
  qed
  have B: "I u'" if b: "\<forall>c v x v'. I v \<longrightarrow> body c v = Some (x, v') \<longrightarrow> I v'" and i: "I u"
    and h: "children_loop (Suc n) P T body die cur u = Some (r, u')" for body die cur u r u'
  proof -
    obtain res u1 where g: "get_cached_DIE P T u cur = (res, u1)"
      by (cases "get_cached_DIE P T u cur")
    have i1: "I u1" using i g by (rule look)
    show ?thesis
    proof (cases res)
      case (Inl e)
      with h g i1 show ?thesis by (simp add: children_loop_Suc)
    next
      case (Inr child)
      let ?u2 = "set_parent child die u1"
      have i2: "I ?u2" using i1 by (rule par)
      show ?thesis
      proof (cases "tag (objects u1 ! child) = None")
        case True
        with h g Inr have "u' = set_terminator die child ?u2" by (simp add: children_loop_Suc)
        with i2 ter show ?thesis by simp
      next
        case False
        from h g Inr False obtain rb u3 where x: "body child ?u2 = Some (rb, u3)"
          by (cases "body child ?u2") (auto simp: children_loop_Suc simp del: not_None_eq)
        have i3: "I u3" using b i2 x by blast
        show ?thesis
        proof (cases rb)
          case (Inl e)
          with h g Inr False x i3 show ?thesis
            by (auto simp: children_loop_Suc simp del: not_None_eq)
        next
          case ys: (Inr ys)
          from h g Inr False x ys obtain rc u4 where y: "next_cur_offset n P T child cur u3 = Some (rc, u4)"
            by (cases "next_cur_offset n P T child cur u3")
               (auto simp: children_loop_Suc simp del: not_None_eq)
          have i4: "I u4" using i3 y by (rule IH3)
          show ?thesis
          proof (cases rc)
            case (Inl e)
            with h g Inr False x ys y i4 show ?thesis
              by (auto simp: children_loop_Suc simp del: not_None_eq)
          next
            case c: (Inr cur')
            from h g Inr False x ys y c obtain rz u5
              where z: "children_loop n P T body die cur' u4 = Some (rz, u5)"
              by (cases "children_loop n P T body die cur' u4")
                 (auto simp: children_loop_Suc simp del: not_None_eq)
            have i5: "I u5" using b i4 z by (rule IH2)
            from h g Inr False x ys y c z have "u' = u5"
              by (cases rz) (auto simp: children_loop_Suc simp del: not_None_eq)
            with i5 show ?thesis by simp
          qed
        qed
      qed
    qed
  qed
  show ?case using A B C by blast
qed

lemma iter_DIE_children_preserves:
  assumes "\<And>u off res u'. I u \<Longrightarrow> get_cached_DIE P T u off = (res, u') \<Longrightarrow> I u'"
    and "\<And>c d u. I u \<Longrightarrow> I (set_parent c d u)"
    and "\<And>c d u. I u \<Longrightarrow> I (set_terminator c d u)"
    and "\<And>c v x v'. I v \<Longrightarrow> body c v = Some (x, v') \<Longrightarrow> I v'"
    and "I u" "iter_DIE_children n P T body die u = Some (r, u')"
  shows "I u'"
proof -
  have "\<forall>body die u r u'. (\<forall>c v x v'. I v \<longrightarrow> body c v = Some (x, v') \<longrightarrow> I v') \<longrightarrow> I u \<longrightarrow>
            iter_DIE_children n P T body die u = Some (r, u') \<longrightarrow> I u'"
    using iter_preserves_all [where I = I and P = P and T = T and n = n] assms(1-3) by blast
  moreover have "\<forall>c v x v'. I v \<longrightarrow> body c v = Some (x, v') \<longrightarrow> I v'"
    using assms(4) by blast
  ultimately show ?thesis using assms(5,6) by blast
qed

lemma iter_DIE_subtree_preserves:
  assumes look: "\<And>u off res u'. I u \<Longrightarrow> get_cached_DIE P T u off = (res, u') \<Longrightarrow> I u'"
    and par: "\<And>c d u. I u \<Longrightarrow> I (set_parent c d u)"
    and ter: "\<And>c d u. I u \<Longrightarrow> I (set_terminator c d u)"
    and imp: "\<And>c v x v'. I v \<Longrightarrow> G c v = (x, v') \<Longrightarrow> I v'"
  shows "I u \<Longrightarrow> iter_DIE_subtree n P T G c u = Some (r, u') \<Longrightarrow> I u'"
proof (induction n arbitrary: c u r u')
  case 0
  then show ?case by (simp add: iter_DIE_subtree.simps)
next
  case (Suc n)
  let ?g = "if tag (objects u ! c) = Some ''DW_TAG_imported_unit'' \<and> supplementary_dwarfinfo u
            then G c u else (Inr c, u)"
  obtain rg u1 where g: "?g = (rg, u1)" by (cases ?g)
  have i1: "I u1" using g Suc.prems(1) imp by (auto split: if_splits)
  show ?case
  proof (cases rg)
    case (Inl e)
    with Suc.prems(2) g i1 show ?thesis by (simp add: iter_DIE_subtree.simps)
  next
    case (Inr d)
    show ?thesis
    proof (cases "has_children (objects u1 ! d)")
      case False
      with Suc.prems(2) g Inr i1 show ?thesis by (simp add: iter_DIE_subtree.simps)
    next
      case True
      from Suc.prems(2) g Inr True obtain x v
        where x: "iter_DIE_children n P T (iter_DIE_subtree n P T G) d u1 = Some (x, v)"
        by (cases "iter_DIE_children n P T (iter_DIE_subtree n P T G) d u1")
           (auto simp: iter_DIE_subtree.simps)
      have "I v"
        using look par ter _ i1 x
      proof (rule iter_DIE_children_preserves)
        fix c v x v' assume "I v" "iter_DIE_subtree n P T G c v = Some (x, v')"
        then show "I v'" by (rule Suc.IH)
      qed
      moreover from Suc.prems(2) g Inr True x have "u' = v"
        by (cases x) (auto simp: iter_DIE_subtree.simps)
      ultimately show ?thesis by simp
    qed
  qed
qed

lemma cache_sorted_set_parent: "cache_sorted u \<Longrightarrow> cache_sorted (set_parent c d u)"
  by (simp add: cache_sorted_def)

lemma cache_sorted_set_terminator: "cache_sorted u \<Longrightarrow> cache_sorted (set_terminator c d u)"
  by (simp add: cache_sorted_def)

lemma same_unit_set_parent: "same_unit u0 u \<Longrightarrow> same_unit u0 (set_parent c d u)"
  by (simp add: same_unit_def)

lemma same_unit_set_terminator: "same_unit u0 u \<Longrightarrow> same_unit u0 (set_terminator c d u)"
  by (simp add: same_unit_def)

lemma tu_size_same_unit: "same_unit u u' \<Longrightarrow> tu_size u' = unit_length u + initial_length_field_size u"
  by (simp add: same_unit_def tu_size_def)

lemma kept_lookup:
  assumes "kept u0 u" "get_cached_DIE P T u off = (res, u')"
  shows "kept u0 u'"
  using assms get_cached_DIE_sorted [of u P T off res u']
    same_unit_trans [OF _ get_cached_DIE_same_unit [OF assms(2)], of u0]
  by (simp add: kept_def)

lemma kept_set_parent: "kept u0 u \<Longrightarrow> kept u0 (set_parent c d u)"
  by (simp add: kept_def cache_sorted_set_parent same_unit_set_parent)

lemma kept_set_terminator: "kept u0 u \<Longrightarrow> kept u0 (set_terminator c d u)"
  by (simp add: kept_def cache_sorted_set_terminator same_unit_set_terminator)

lemma iter_DIE_children_kept:
  assumes "\<And>c v x v'. kept u0 v \<Longrightarrow> body c v = Some (x, v') \<Longrightarrow> kept u0 v'"
    and "kept u0 u" "iter_DIE_children n P T body die u = Some (r, u')"
  shows "kept u0 u'"
  using kept_lookup kept_set_parent kept_set_terminator assms
  by (rule iter_DIE_children_preserves [where I = "kept u0"])

lemma iter_DIE_subtree_kept:
  assumes "\<And>c v x v'. kept u0 v \<Longrightarrow> G c v = (x, v') \<Longrightarrow> kept u0 v'"
    and "kept u0 u" "iter_DIE_subtree n P T G c u = Some (r, u')"
  shows "kept u0 u'"
  using kept_lookup kept_set_parent kept_set_terminator assms
  by (rule iter_DIE_subtree_preserves [where I = "kept u0"])

subsection \<open>Whole units\<close>

lemma new_unit_top:
  assumes "P lo = Inr (Entry tg hc sz ats)" "T ats = Inr ats'"
  shows "\<exists>v. get_top_DIE P T (TypeUnit_init l w s a lo) = (Inr 0, v) \<and> consistent P v \<and>
           same_unit (TypeUnit_init l w s a lo) v \<and> length (objects v) = 1 \<and>
           offset (objects v ! 0) = lo"
proof -
  let ?u = "TypeUnit_init l w s a lo"
  let ?d = "\<lparr>offset = lo, tag = Some tg, has_children = hc, die_size = sz,
            attributes = ats', terminator = None, parent = None\<rparr>"
  let ?v = "?u\<lparr>dielist := [0], diemap := [lo], objects := [?d]\<rparr>"
  have g: "get_top_DIE P T ?u = (Inr 0, ?v)"
    using assms by (simp add: get_top_DIE_def DIE_init_Entry TypeUnit_init_def)
  have "agrees P lo ?d" using assms(1) by (simp add: agrees_def DIE_init_Entry)
  then have "consistent P ?v"
    by (simp add: consistent_def unit_inv_def cache_sorted_def top_first_def terminator_ok_def
        TypeUnit_init_def)
  moreover have "same_unit ?u ?v" by (simp add: same_unit_def)
  ultimately show ?thesis using g by (intro exI [of _ ?v]) simp
qed

lemma iter_DIEs_consistent:
  assumes "entry_at P (tu_offset u) (tu_die_offset u) es e" "consistent P u" "imports_off P u es"
  shows "\<exists>n v ys. iter_DIEs n P T G u = Some (Inr ys, v) \<and> consistent P v \<and> grows u v \<and>
           valid_refs v ys \<and> offsets_of v ys = map Some es"
proof -
  have cs: "cache_sorted u" and ne: "diemap u \<noteq> []" and tf: "top_first u"
    using assms(2) by (rule consistent_unit)+
  have g: "get_top_DIE P T u = (Inr (dielist u ! 0), u)" using cs ne by (rule get_top_DIE_cached)
  have k: "0 < length (diemap u)" using ne by simp
  have c: "dielist u ! 0 < length (objects u)" "offset (objects u ! (dielist u ! 0)) = tu_die_offset u"
    using cache_sorted_nth [OF cs k] tf ne by (simp_all add: top_first_def)
  from subtree_correct(1) [OF assms(1,2) refl _ assms(3) c, of T G]
  obtain n v ys where "iter_DIE_subtree n P T G (dielist u ! 0) u = Some (Inr ys, v)"
    "consistent P v" "grows u v" "valid_refs v ys" "offsets_of v ys = map Some es"
    by auto
  then show ?thesis unfolding iter_DIEs_def g by (simp, blast)
qed

lemma iter_DIEs_new_unit:
  assumes "entry_at P a lo es e" "imports_off P (TypeUnit_init l w s a lo) es"
    and "P lo = Inr (Entry tg hc sz ats)" "T ats = Inr ats'"
  shows "\<exists>n v ys. iter_DIEs n P T G (TypeUnit_init l w s a lo) = Some (Inr ys, v) \<and>
           consistent P v \<and> same_unit (TypeUnit_init l w s a lo) v \<and>
           valid_refs v ys \<and> offsets_of v ys = map Some es"
proof -
  let ?u = "TypeUnit_init l w s a lo"
  from new_unit_top [where P = P and T = T and l = l and w = w and s = s and a = a, OF assms(3,4)]
  obtain v0 where v0: "get_top_DIE P T ?u = (Inr 0, v0)" "consistent P v0" "same_unit ?u v0"
    "length (objects v0) = 1" "offset (objects v0 ! 0) = lo" by blast
  have b: "tu_offset v0 = a" "tu_die_offset v0 = lo" "supplementary_dwarfinfo v0 = s"
    using v0(3) by (simp_all add: same_unit_def TypeUnit_init_def)
  have i: "imports_off P v0 es" using assms(2) b by (simp add: imports_off_def TypeUnit_init_def)
  have c: "0 < length (objects v0)" using v0(4) by simp
  have en: "entry_at P (tu_offset v0) lo es e" using assms(1) b by simp
  from subtree_correct(1) [OF en v0(2) refl _ i c v0(5), of T G] b
  obtain n v ys where r: "iter_DIE_subtree n P T G 0 v0 = Some (Inr ys, v)"
    "consistent P v" "grows v0 v" "valid_refs v ys" "offsets_of v ys = map Some es"
    by auto
  have "same_unit ?u v" using v0(3) r(3) same_unit_trans by (auto simp: grows_def)
  moreover have "iter_DIEs n P T G ?u = Some (Inr ys, v)" using v0(1) r(1) by (simp add: iter_DIEs_def)
  ultimately show ?thesis using r by blast
qed

lemma drain_correct:
  assumes "entry_at P (tu_offset u) off es e" "consistent P u" "tu_die_offset u \<le> off"
    and "c < length (objects u)" "offset (objects u ! c) = off" "has_children (objects u ! c)"
  shows "\<exists>n v tr. iter_DIE_children n P T pass c u = Some (Inr [], v) \<and> consistent P v \<and>
           grows u v \<and> terminator (objects v ! c) = Some tr \<and> tr < length (objects v) \<and>
           offset (objects v ! tr) + die_size (objects v ! tr) = e"
  using assms(1)
proof (cases rule: entry_at.cases)
  case (leaf tg sz ats)
  with consistent_entry(2) [OF assms(2,4,5) leaf(3)] assms(6) show ?thesis by simp
next
  case (node tg sz ats cs es' t)
  have sz: "die_size (objects u ! c) = sz" using consistent_entry(3) [OF assms(2,4,5) node(2)] .
  have lo: "tu_die_offset u < off + sz" using assms(3) node(3) by simp
  have link: "children_at P (tu_offset u) (offset (objects u ! c) + die_size (objects u ! c)) cs es' t e"
    using node(4) assms(5) sz by simp
  from scan_correct(2) [OF node(4) assms(2) refl lo assms(4) link, of T]
  obtain n v tr where "children_loop n P T pass c (off + sz) u = Some (Inr [], v)"
    "consistent P v" "grows u v" "terminator (objects v ! c) = Some tr" "tr < length (objects v)"
    "offset (objects v ! tr) + die_size (objects v ! tr) = e" by blast
  moreover from this(1) have "iter_DIE_children (Suc n) P T pass c u = Some (Inr [], v)"
    using assms(5,6) sz by (simp add: iter_DIE_children_Suc)
  ultimately show ?thesis by blast
qed

lemma children_correct:
  assumes "children_at P (tu_offset u) (off + sz) cs es t e" "P off = Inr (Entry tg True sz ats)"
    and "0 < sz" "consistent P u" "tu_die_offset u \<le> off"
    and "c < length (objects u)" "offset (objects u ! c) = off"
  shows "\<exists>n v ys tr. iter_DIE_children n P T keep c u = Some (Inr ys, v) \<and> consistent P v \<and>
           grows u v \<and> valid_refs v ys \<and> offsets_of v ys = map Some cs \<and>
           terminator (objects v ! c) = Some tr \<and> tr < length (objects v) \<and>
           offset (objects v ! tr) = t"
proof -
  have obj: "has_children (objects u ! c)" "die_size (objects u ! c) = sz"
    using consistent_entry [OF assms(4,6,7,2)] by simp_all
  have lo: "tu_die_offset u < off + sz" using assms(3,5) by simp
  have link: "children_at P (tu_offset u) (offset (objects u ! c) + die_size (objects u ! c)) cs es t e"
    using assms(1,7) obj(2) by simp
  from keep_correct(2) [OF assms(1,4) refl lo assms(6) link, of T]
  obtain n v ys tr where "children_loop n P T keep c (off + sz) u = Some (Inr ys, v)"
    "consistent P v" "grows u v" "valid_refs v ys" "offsets_of v ys = map Some cs"
    "terminator (objects v ! c) = Some tr" "tr < length (objects v)" "offset (objects v ! tr) = t"
    by blast
  moreover from this(1) have "iter_DIE_children (Suc n) P T keep c u = Some (Inr ys, v)"
    using assms(7) obj by (simp add: iter_DIE_children_Suc)
  ultimately show ?thesis by blast
qed

lemma imported_unit_at_strip [simp]:
  "imported_unit_at (strip_siblings P) off = imported_unit_at P off"
  by (simp add: imported_unit_at_def strip_siblings_def split: sum.splits parsed.splits)

lemma imports_off_strip:
  "imports_off P u es \<Longrightarrow> imports_off (strip_siblings P) u es"
  by (simp add: imports_off_def)
section \<open>Enumeration, shortcuts and the invariant of a unit\<close>

lemma example_layout: "entry_at example_parser 0 23 [23, 28, 29] 30"
proof -
  have n: "children_at example_parser 0 29 [] [] 29 (29 + 1)"
    by (rule entry_at_children_at.nil) (simp_all add: example_parser_def)
  have b: "entry_at example_parser 0 28 [28] (28 + 1)"
    by (rule entry_at_children_at.leaf [where tg = "''B''" and ats = "[]"])
       (simp_all add: example_parser_def)
  have "children_at example_parser 0 28 (28 # []) ([28] @ []) 29 (29 + 1)"
    using b n by (intro entry_at_children_at.cons [where ?e1.0 = 29]) simp_all
  then have c: "children_at example_parser 0 (23 + 5) [28] [28] 29 30" by simp
  have s: "sibling_ok 0 [(''DW_AT_byte_size'', \<lparr>form = ''DW_FORM_data4'', attr_value = 8\<rparr>)] 30"
    by code_simp
  have "entry_at example_parser 0 23 (23 # [28] @ [29]) 30"
    by (rule entry_at_children_at.node [OF _ _ c s, where tg = "''A''"])
       (simp_all add: example_parser_def)
  then show ?thesis by simp
qed

lemma example_top_cached_consistent: "consistent example_parser example_top_cached"
proof -
  have "agrees example_parser 23 \<lparr>offset = 23, tag = Some ''A'', has_children = True, die_size = 5,
      attributes = [(''DW_AT_byte_size'', \<lparr>form = ''DW_FORM_data4'', attr_value = 8\<rparr>)],
      terminator = None, parent = None\<rparr>"
    by (simp add: agrees_def DIE_init_def example_parser_def)
  then show ?thesis
    using example_top_cached_inv
    by (simp add: consistent_def terminator_ok_def example_top_cached_def example_unit_def
        TypeUnit_init_def)
qed

lemma lookup_new_unit:
  assumes "P lo = Inr (Entry tg hc sz ats)" "T ats = Inr ats'" "lo \<le> off" "P off = Inr p"
  shows "consistent P (snd (get_cached_DIE P T (TypeUnit_init l w s a lo) off))"
proof -
  let ?u = "TypeUnit_init l w s a lo"
  from new_unit_top [where P = P and T = T and l = l and w = w and s = s and a = a, OF assms(1,2)]
  obtain v0 where v0: "get_top_DIE P T ?u = (Inr 0, v0)" "consistent P v0" "same_unit ?u v0"
    by blast
  have "tu_die_offset v0 \<le> off" using v0(3) assms(3) by (simp add: same_unit_def TypeUnit_init_def)
  from lookup_consistent [OF v0(2) this assms(4), of T]
  obtain c v where "get_cached_DIE P T v0 off = (Inr c, v)" "consistent P v" by blast
  moreover have "get_cached_DIE P T ?u off = get_cached_DIE P T v0 off"
    using v0(1) by (simp add: get_cached_DIE_via_top [OF cache_sorted_init])
  ultimately show ?thesis by simp
qed

lemma import_layout: "entry_at import_parser 0 23 [23, 28, 33, 34] 35"
proof -
  have n: "children_at import_parser 0 34 [] [] 34 (34 + 1)"
    by (rule entry_at_children_at.nil) (simp_all add: import_parser_def)
  have b: "entry_at import_parser 0 33 [33] (33 + 1)"
    by (rule entry_at_children_at.leaf [where tg = "''DW_TAG_base_type''" and ats = "[]"])
       (simp_all add: import_parser_def)
  have i: "entry_at import_parser 0 28 [28] (28 + 5)"
    by (rule entry_at_children_at.leaf [where tg = "''DW_TAG_imported_unit''"])
       (simp_all add: import_parser_def)
  have "children_at import_parser 0 33 (33 # []) ([33] @ []) 34 (34 + 1)"
    using b n by (intro entry_at_children_at.cons [where ?e1.0 = 34]) simp_all
  then have "children_at import_parser 0 28 (28 # [33]) ([28] @ [33]) 34 (34 + 1)"
    using i by (intro entry_at_children_at.cons [where ?e1.0 = 33]) simp_all
  then have c: "children_at import_parser 0 (23 + 5) [28, 33] [28, 33] 34 35" by simp
  have s: "sibling_ok 0 [] 35" by (simp add: sibling_ok_def)
  have "entry_at import_parser 0 23 (23 # [28, 33] @ [34]) 35"
    by (rule entry_at_children_at.node [OF _ _ c s, where tg = "''DW_TAG_type_unit''"])
       (simp_all add: import_parser_def)
  then show ?thesis by simp
qed

text \<open>
  Claim C8, as stated, fails: with supplementary debugging information configured, an
  imported unit is replaced by the DIE its import refers to before anything is yielded.
  The tree of the unit below is well formed, with the offsets 23, 28, 33, 34 in pre-order,
  but the enumeration yields the DIE at 33 in place of the imported unit at 28.
\<close>

theorem imported_unit_counterexample:
  "entry_at import_parser 0 23 [23, 28, 33, 34] 35 \<and>
   enumerated_offsets (iter_DIEs 6 import_parser Inr
       (get_DIE_from_attribute import_parser Inr ''DW_AT_import'') import_unit)
     = Some (Inr [Some 23, Some 33, Some 33, Some 34]) \<and>
   enumerated_offsets (iter_DIEs 6 import_parser Inr
       (get_DIE_from_attribute import_parser Inr ''DW_AT_import'') import_unit)
     \<noteq> Some (Inr (map Some [23, 28, 33, 34]))"
proof -
  have "enumerated_offsets (iter_DIEs 6 import_parser Inr
       (get_DIE_from_attribute import_parser Inr ''DW_AT_import'') import_unit)
     = Some (Inr [Some 23, Some 33, Some 33, Some 34])"
    by code_simp
  then show ?thesis using import_layout by simp
qed

lemma iter_DIE_subtree_imported:
  assumes "tag (objects u ! c) = Some ''DW_TAG_imported_unit''" "supplementary_dwarfinfo u"
  shows "G c u = (Inl e, u1) \<Longrightarrow> iter_DIE_subtree (Suc n) P T G c u = Some (Inl e, u1)"
    and "G c u = (Inr d, u1) \<Longrightarrow> iter_DIE_subtree (Suc n) P T G c u = Some (Inr ys, v) \<Longrightarrow>
      \<exists>zs. ys = Some d # zs"
    and "G c u = (Inr d, u1) \<Longrightarrow> tag (objects u1 ! d) \<noteq> Some ''DW_TAG_imported_unit'' \<Longrightarrow>
      iter_DIE_subtree (Suc n) P T G c u = iter_DIE_subtree (Suc n) P T G d u1"
proof -
  have sel: "(if tag (objects u ! c) = Some ''DW_TAG_imported_unit'' \<and> supplementary_dwarfinfo u
         then G c u else (Inr c, u)) = G c u"
    using assms by simp
  show "iter_DIE_subtree (Suc n) P T G c u = Some (Inl e, u1)" if "G c u = (Inl e, u1)"
    using that by (simp add: iter_DIE_subtree.simps(2) [of n] sel)
  have body: "iter_DIE_subtree (Suc n) P T G c u =
     (if has_children (objects u1 ! d) then
        (case iter_DIE_children n P T (iter_DIE_subtree n P T G) d u1 of
           None \<Rightarrow> None
         | Some (Inl e, u2) \<Rightarrow> Some (Inl e, u2)
         | Some (Inr ys, u2) \<Rightarrow> Some (Inr (Some d # ys @ [terminator (objects u2 ! d)]), u2))
      else Some (Inr [Some d], u1))" if "G c u = (Inr d, u1)"
    using that by (simp add: iter_DIE_subtree.simps(2) [of n] sel)
  show "\<exists>zs. ys = Some d # zs"
    if "G c u = (Inr d, u1)" "iter_DIE_subtree (Suc n) P T G c u = Some (Inr ys, v)"
    using that(2) unfolding body [OF that(1)]
    by (auto split: if_splits option.splits prod.splits sum.splits)
  show "iter_DIE_subtree (Suc n) P T G c u = iter_DIE_subtree (Suc n) P T G d u1"
    if "G c u = (Inr d, u1)" "tag (objects u1 ! d) \<noteq> Some ''DW_TAG_imported_unit''"
    unfolding body [OF that(1)] using that(2) by (simp add: iter_DIE_subtree_Suc_plain)
qed

text \<open>
  Claim C8, amended. On a consistent unit, for every DIE \<open>D\<close> at the root of a well-formed
  subtree in which no entry is replaced by its import (no supplementary debugging
  information is configured, or neither \<open>D\<close> nor a descendant of \<open>D\<close> is an imported unit),
  \<open>_iter_DIE_subtree\<close> returns (given enough fuel) and yields the offsets of the subtree in
  depth-first pre-order: the offset of \<open>D\<close> alone when \<open>D\<close> has no children, and otherwise
  the offset of \<open>D\<close>, then the enumerations of the children's subtrees in the order of the
  children, then the offset of the null terminator of \<open>D\<close>, while \<open>iter_DIE_children\<close>
  yields exactly the children and records the terminator. \<open>iter_DIEs\<close> does so from the top
  DIE, also on a new unit. An entry tagged as an imported unit, when supplementary
  debugging information is configured, is replaced by the DIE its import resolves to
  before it is yielded: if the resolution raises, so does the enumeration; otherwise the
  first DIE yielded is the resolved one, and the enumeration is that of the resolved DIE
  (which is not replaced a second time).
\<close>

theorem subtree_enumeration_preorder:
  assumes "entry_at P (tu_offset u) off es e" "consistent P u" "tu_die_offset u \<le> off"
    and "imports_off P u es" "c < length (objects u)" "offset (objects u ! c) = off"
  shows "(\<exists>n v ys. iter_DIE_subtree n P T G c u = Some (Inr ys, v) \<and> valid_refs v ys \<and>
            offsets_of v ys = map Some es \<and> consistent P v) \<and>
         (\<not> has_children (objects u ! c) \<longrightarrow> es = [off]) \<and>
         (has_children (objects u ! c) \<longrightarrow>
            (\<exists>cs es' t. children_at P (tu_offset u) (off + die_size (objects u ! c)) cs es' t e \<and>
               es = off # es' @ [t] \<and>
               (\<exists>n v ys tr. iter_DIE_children n P T keep c u = Some (Inr ys, v) \<and>
                  valid_refs v ys \<and> offsets_of v ys = map Some cs \<and>
                  terminator (objects v ! c) = Some tr \<and> tr < length (objects v) \<and>
                  offset (objects v ! tr) = t))) \<and>
         (off = tu_die_offset u \<longrightarrow>
            (\<exists>n v ys. iter_DIEs n P T G u = Some (Inr ys, v) \<and> valid_refs v ys \<and>
               offsets_of v ys = map Some es)) \<and>
         (\<forall>l w s a lo es0 e0 tg hc sz ats ats'.
            entry_at P a lo es0 e0 \<and> imports_off P (TypeUnit_init l w s a lo) es0 \<and>
            P lo = Inr (Entry tg hc sz ats) \<and> T ats = Inr ats' \<longrightarrow>
            (\<exists>n v ys. iter_DIEs n P T G (TypeUnit_init l w s a lo) = Some (Inr ys, v) \<and>
               valid_refs v ys \<and> offsets_of v ys = map Some es0)) \<and>
         (\<forall>c0 u0 k. tag (objects u0 ! c0) = Some ''DW_TAG_imported_unit'' \<and>
            supplementary_dwarfinfo (u0 :: TypeUnit) \<longrightarrow>
            (case G c0 u0 of
               (Inl x, u1) \<Rightarrow> iter_DIE_subtree (Suc k) P T G c0 u0 = Some (Inl x, u1)
             | (Inr d, u1) \<Rightarrow>
                 (\<forall>ys v. iter_DIE_subtree (Suc k) P T G c0 u0 = Some (Inr ys, v) \<longrightarrow>
                    (\<exists>zs. ys = Some d # zs)) \<and>
                 (tag (objects u1 ! d) \<noteq> Some ''DW_TAG_imported_unit'' \<longrightarrow>
                    iter_DIE_subtree (Suc k) P T G c0 u0 = iter_DIE_subtree (Suc k) P T G d u1)))"
proof -
  from subtree_correct(1) [OF assms(1,2) refl assms(3-6), of T G]
  have c1: "\<exists>n v ys. iter_DIE_subtree n P T G c u = Some (Inr ys, v) \<and> valid_refs v ys \<and>
      offsets_of v ys = map Some es \<and> consistent P v"
    by blast
  have c2: "\<not> has_children (objects u ! c) \<longrightarrow> es = [off]"
  proof
    assume nc: "\<not> has_children (objects u ! c)"
    from assms(1) show "es = [off]"
    proof (cases rule: entry_at.cases)
      case (leaf tg sz ats)
      then show ?thesis by simp
    next
      case (node tg sz ats cs es' t)
      with consistent_entry(2) [OF assms(2,5,6) node(2)] nc show ?thesis by simp
    qed
  qed
  have c3: "has_children (objects u ! c) \<longrightarrow>
      (\<exists>cs es' t. children_at P (tu_offset u) (off + die_size (objects u ! c)) cs es' t e \<and>
      es = off # es' @ [t] \<and>
      (\<exists>n v ys tr. iter_DIE_children n P T keep c u = Some (Inr ys, v) \<and>
         valid_refs v ys \<and> offsets_of v ys = map Some cs \<and>
         terminator (objects v ! c) = Some tr \<and> tr < length (objects v) \<and>
         offset (objects v ! tr) = t))"
  proof
    assume hc: "has_children (objects u ! c)"
    from assms(1) show "\<exists>cs es' t. children_at P (tu_offset u) (off + die_size (objects u ! c)) cs es' t e \<and>
      es = off # es' @ [t] \<and>
      (\<exists>n v ys tr. iter_DIE_children n P T keep c u = Some (Inr ys, v) \<and>
         valid_refs v ys \<and> offsets_of v ys = map Some cs \<and>
         terminator (objects v ! c) = Some tr \<and> tr < length (objects v) \<and>
         offset (objects v ! tr) = t)"
    proof (cases rule: entry_at.cases)
      case (leaf tg sz ats)
      with consistent_entry(2) [OF assms(2,5,6) leaf(3)] hc show ?thesis by simp
    next
      case (node tg sz ats cs es' t)
      have sz: "die_size (objects u ! c) = sz" using consistent_entry(3) [OF assms(2,5,6) node(2)] .
      from children_correct [OF node(4,2,3) assms(2,3,5,6), of T]
      have "\<exists>n v ys tr. iter_DIE_children n P T keep c u = Some (Inr ys, v) \<and>
         valid_refs v ys \<and> offsets_of v ys = map Some cs \<and>
         terminator (objects v ! c) = Some tr \<and> tr < length (objects v) \<and>
         offset (objects v ! tr) = t"
        by blast
      with node(1,4) sz show ?thesis by blast
    qed
  qed
  have c4: "off = tu_die_offset u \<longrightarrow>
      (\<exists>n v ys. iter_DIEs n P T G u = Some (Inr ys, v) \<and> valid_refs v ys \<and>
      offsets_of v ys = map Some es)"
  proof
    assume "off = tu_die_offset u"
    with iter_DIEs_consistent [OF _ assms(2,4), of e T G] assms(1)
    show "\<exists>n v ys. iter_DIEs n P T G u = Some (Inr ys, v) \<and> valid_refs v ys \<and>
      offsets_of v ys = map Some es"
      by blast
  qed
  have c5: "\<forall>l w s a lo es0 e0 tg hc sz ats ats'.
      entry_at P a lo es0 e0 \<and> imports_off P (TypeUnit_init l w s a lo) es0 \<and>
      P lo = Inr (Entry tg hc sz ats) \<and> T ats = Inr ats' \<longrightarrow>
      (\<exists>n v ys. iter_DIEs n P T G (TypeUnit_init l w s a lo) = Some (Inr ys, v) \<and>
         valid_refs v ys \<and> offsets_of v ys = map Some es0)"
  proof (intro allI impI)
    fix l w s a lo es0 e0 tg hc sz ats ats'
    assume h: "entry_at P a lo es0 e0 \<and> imports_off P (TypeUnit_init l w s a lo) es0 \<and>
      P lo = Inr (Entry tg hc sz ats) \<and> T ats = Inr ats'"
    then have "entry_at P a lo es0 e0" "imports_off P (TypeUnit_init l w s a lo) es0"
      "P lo = Inr (Entry tg hc sz ats)" "T ats = Inr ats'" by blast+
    from iter_DIEs_new_unit [where P = P and T = T and G = G, OF this]
    show "\<exists>n v ys. iter_DIEs n P T G (TypeUnit_init l w s a lo) = Some (Inr ys, v) \<and>
      valid_refs v ys \<and> offsets_of v ys = map Some es0"
      by blast
  qed
  have c6: "\<forall>c0 u0 k. tag (objects u0 ! c0) = Some ''DW_TAG_imported_unit'' \<and>
      supplementary_dwarfinfo (u0 :: TypeUnit) \<longrightarrow>
      (case G c0 u0 of
         (Inl x, u1) \<Rightarrow> iter_DIE_subtree (Suc k) P T G c0 u0 = Some (Inl x, u1)
       | (Inr d, u1) \<Rightarrow>
           (\<forall>ys v. iter_DIE_subtree (Suc k) P T G c0 u0 = Some (Inr ys, v) \<longrightarrow>
              (\<exists>zs. ys = Some d # zs)) \<and>
           (tag (objects u1 ! d) \<noteq> Some ''DW_TAG_imported_unit'' \<longrightarrow>
              iter_DIE_subtree (Suc k) P T G c0 u0 = iter_DIE_subtree (Suc k) P T G d u1))"
  proof (intro allI impI)
    fix c0 and u0 :: TypeUnit and k
    assume "tag (objects u0 ! c0) = Some ''DW_TAG_imported_unit'' \<and> supplementary_dwarfinfo u0"
    then have h: "tag (objects u0 ! c0) = Some ''DW_TAG_imported_unit''" "supplementary_dwarfinfo u0"
      by blast+
    obtain r u1 where g: "G c0 u0 = (r, u1)" by (cases "G c0 u0")
    show "case G c0 u0 of
         (Inl x, u1) \<Rightarrow> iter_DIE_subtree (Suc k) P T G c0 u0 = Some (Inl x, u1)
       | (Inr d, u1) \<Rightarrow>
           (\<forall>ys v. iter_DIE_subtree (Suc k) P T G c0 u0 = Some (Inr ys, v) \<longrightarrow>
              (\<exists>zs. ys = Some d # zs)) \<and>
           (tag (objects u1 ! d) \<noteq> Some ''DW_TAG_imported_unit'' \<longrightarrow>
              iter_DIE_subtree (Suc k) P T G c0 u0 = iter_DIE_subtree (Suc k) P T G d u1)"
    proof (cases r)
      case (Inl x)
      with g iter_DIE_subtree_imported(1) [OF h, of G x u1 k P T] show ?thesis by simp
    next
      case (Inr d)
      with g have g': "G c0 u0 = (Inr d, u1)" by simp
      have "\<exists>zs. ys = Some d # zs"
        if "iter_DIE_subtree (Suc k) P T G c0 u0 = Some (Inr ys, v)" for ys v
        using g' that by (rule iter_DIE_subtree_imported(2) [OF h])
      moreover have "iter_DIE_subtree (Suc k) P T G c0 u0 = iter_DIE_subtree (Suc k) P T G d u1"
        if "tag (objects u1 ! d) \<noteq> Some ''DW_TAG_imported_unit''"
        using g' that by (rule iter_DIE_subtree_imported(3) [OF h])
      ultimately show ?thesis using g' by simp
    qed
  qed
  from c1 c2 c3 c4 c5 c6 show ?thesis by (intro conjI)
qed

lemma example_imports_off: "imports_off example_parser example_top_cached [23, 28, 29]"
  by (simp add: imports_off_def example_top_cached_def example_unit_def TypeUnit_init_def)

lemma import_leaf_layout: "entry_at import_parser 0 33 [33] 34"
proof -
  have "entry_at import_parser 0 33 [33] (33 + 1)"
    by (rule entry_at_children_at.leaf [where tg = "''DW_TAG_base_type''" and ats = "[]"])
       (simp_all add: import_parser_def)
  then show ?thesis by simp
qed

theorem subtree_enumeration_preorder_witness:
  "entry_at example_parser (tu_offset example_top_cached) 23 [23, 28, 29] 30 \<and>
   consistent example_parser example_top_cached \<and> tu_die_offset example_top_cached \<le> 23 \<and>
   imports_off example_parser example_top_cached [23, 28, 29] \<and>
   0 < length (objects example_top_cached) \<and>
   offset (objects example_top_cached ! 0) = 23 \<and>
   map_option fst (iter_DIEs 4 example_parser Inr no_import example_unit)
     = Some (Inr [Some 0, Some 1, Some 2]) \<and>
   enumerated_offsets (iter_DIEs 4 example_parser Inr no_import example_unit)
     = Some (Inr (map Some [23, 28, 29])) \<and>
   enumerated_offsets (iter_DIE_subtree 4 example_parser Inr no_import 0 example_top_cached)
     = Some (Inr (map Some [23, 28, 29])) \<and>
   map_option fst (iter_DIE_children 3 example_parser Inr keep 0 example_top_cached)
     = Some (Inr [Some 1]) \<and>
   map_option (\<lambda>(r, v). (terminator (objects v ! 0), offset (objects v ! 2)))
      (iter_DIE_children 3 example_parser Inr keep 0 example_top_cached)
     = Some (Some 2, 29) \<and>
   entry_at import_parser
      (tu_offset (snd (get_cached_DIE import_parser Inr import_unit 33))) 33 [33] 34 \<and>
   consistent import_parser (snd (get_cached_DIE import_parser Inr import_unit 33)) \<and>
   supplementary_dwarfinfo (snd (get_cached_DIE import_parser Inr import_unit 33)) \<and>
   imports_off import_parser (snd (get_cached_DIE import_parser Inr import_unit 33)) [33] \<and>
   offset (objects (snd (get_cached_DIE import_parser Inr import_unit 33)) ! 1) = 33 \<and>
   enumerated_offsets (iter_DIE_subtree 1 import_parser Inr
       (get_DIE_from_attribute import_parser Inr ''DW_AT_import'') 1
       (snd (get_cached_DIE import_parser Inr import_unit 33)))
     = Some (Inr [Some 33]) \<and>
   tag (objects (snd (get_cached_DIE import_parser Inr import_unit 28)) ! 1)
     = Some ''DW_TAG_imported_unit'' \<and>
   offset (objects (snd (get_cached_DIE import_parser Inr import_unit 28)) ! 1) = 28 \<and>
   map_sum id (\<lambda>d. (d, offset (objects (snd (get_DIE_from_attribute import_parser Inr ''DW_AT_import'' 1
          (snd (get_cached_DIE import_parser Inr import_unit 28)))) ! d)))
     (fst (get_DIE_from_attribute import_parser Inr ''DW_AT_import'' 1
          (snd (get_cached_DIE import_parser Inr import_unit 28)))) = Inr (2, 33) \<and>
   map_option fst (iter_DIE_subtree 1 import_parser Inr
       (get_DIE_from_attribute import_parser Inr ''DW_AT_import'') 1
       (snd (get_cached_DIE import_parser Inr import_unit 28)))
     = Some (Inr [Some 2])"
proof -
  have b: "tu_offset example_top_cached = 0" "tu_die_offset example_top_cached \<le> 23"
    "0 < length (objects example_top_cached)" "offset (objects example_top_cached ! 0) = 23"
    by (simp_all add: example_top_cached_def example_unit_def TypeUnit_init_def)
  have en: "entry_at example_parser (tu_offset example_top_cached) 23 [23, 28, 29] 30"
    using example_layout b(1) by simp
  have r1: "map_option fst (iter_DIEs 4 example_parser Inr no_import example_unit)
     = Some (Inr [Some 0, Some 1, Some 2])" by code_simp
  have r2: "enumerated_offsets (iter_DIEs 4 example_parser Inr no_import example_unit)
     = Some (Inr (map Some [23, 28, 29]))" by code_simp
  have r3: "enumerated_offsets (iter_DIE_subtree 4 example_parser Inr no_import 0 example_top_cached)
     = Some (Inr (map Some [23, 28, 29]))" by code_simp
  have r4: "map_option fst (iter_DIE_children 3 example_parser Inr keep 0 example_top_cached)
     = Some (Inr [Some 1])" by code_simp
  have r5: "map_option (\<lambda>(r, v). (terminator (objects v ! 0), offset (objects v ! 2)))
      (iter_DIE_children 3 example_parser Inr keep 0 example_top_cached)
     = Some (Some 2, 29)" by code_simp
  note first = subtree_enumeration_preorder [OF en example_top_cached_consistent b(2)
      example_imports_off b(3,4), of Inr no_import]
  let ?u = "snd (get_cached_DIE import_parser Inr import_unit 33)"
  let ?w = "snd (get_cached_DIE import_parser Inr import_unit 28)"
  let ?G = "get_DIE_from_attribute import_parser Inr ''DW_AT_import''"
  have bi: "tu_offset ?u = 0" "tu_die_offset ?u \<le> 33" "1 < length (objects ?u)"
    "offset (objects ?u ! 1) = 33" "supplementary_dwarfinfo ?u"
    by code_simp+
  have eni: "entry_at import_parser (tu_offset ?u) 33 [33] 34"
    using import_leaf_layout bi(1) by simp
  have coi: "consistent import_parser ?u"
    unfolding import_unit_def
    by (rule lookup_new_unit [where tg = "''DW_TAG_type_unit''" and ats = "[]"])
       (simp_all add: import_parser_def)
  have ioi: "imports_off import_parser ?u [33]"
    by (simp add: imports_off_def imported_unit_at_def import_parser_def)
  have r6: "enumerated_offsets (iter_DIE_subtree 1 import_parser Inr ?G 1 ?u) = Some (Inr [Some 33])"
    by code_simp
  have r7: "tag (objects ?w ! 1) = Some ''DW_TAG_imported_unit''" "offset (objects ?w ! 1) = 28"
    by code_simp+
  have r8: "map_sum id (\<lambda>d. (d, offset (objects (snd (?G 1 ?w)) ! d))) (fst (?G 1 ?w)) = Inr (2, 33)"
    by code_simp
  have r9: "map_option fst (iter_DIE_subtree 1 import_parser Inr ?G 1 ?w) = Some (Inr [Some 2])"
    by code_simp
  note second = subtree_enumeration_preorder [OF eni coi bi(2) ioi bi(3,4), of Inr ?G]
  have all: ?thesis
    using en example_top_cached_consistent b example_imports_off r1 r2 r3 r4 r5
      eni coi bi(5) ioi bi(4) r6 r7 r8 r9
    by simp
  from first second show ?thesis by - (rule all)
qed

lemma shortcut_layout:
  "entry_at shortcut_parser 64 92 [92, 98, 100] 101"
  "entry_at shortcut_parser 64 87 [87, 92, 98, 100, 101, 104] 105"
proof -
  have n1: "children_at shortcut_parser 64 100 [] [] 100 (100 + 1)"
    by (rule entry_at_children_at.nil) (simp_all add: shortcut_parser_def)
  have m: "entry_at shortcut_parser 64 98 [98] (98 + 2)"
    by (rule entry_at_children_at.leaf [where tg = "''DW_TAG_member''" and ats = "[]"])
       (simp_all add: shortcut_parser_def)
  have "children_at shortcut_parser 64 98 (98 # []) ([98] @ []) 100 (100 + 1)"
    using m n1 by (intro entry_at_children_at.cons [where ?e1.0 = 100]) simp_all
  then have c1: "children_at shortcut_parser 64 (92 + 6) [98] [98] 100 101" by simp
  have s1: "sibling_ok 64 [(''DW_AT_sibling'', \<lparr>form = ''DW_FORM_ref4'', attr_value = 37\<rparr>)] 101"
    by code_simp
  have "entry_at shortcut_parser 64 92 (92 # [98] @ [100]) 101"
    by (rule entry_at_children_at.node [OF _ _ c1 s1, where tg = "''DW_TAG_structure_type''"])
       (simp_all add: shortcut_parser_def)
  then show st: "entry_at shortcut_parser 64 92 [92, 98, 100] 101" by simp
  have n2: "children_at shortcut_parser 64 104 [] [] 104 (104 + 1)"
    by (rule entry_at_children_at.nil) (simp_all add: shortcut_parser_def)
  have bt: "entry_at shortcut_parser 64 101 [101] (101 + 3)"
    by (rule entry_at_children_at.leaf [where tg = "''DW_TAG_base_type''" and ats = "[]"])
       (simp_all add: shortcut_parser_def)
  have "children_at shortcut_parser 64 101 (101 # []) ([101] @ []) 104 (104 + 1)"
    using bt n2 by (intro entry_at_children_at.cons [where ?e1.0 = 104]) simp_all
  then have "children_at shortcut_parser 64 92 (92 # [101]) ([92, 98, 100] @ [101]) 104 (104 + 1)"
    using st by (intro entry_at_children_at.cons [where ?e1.0 = 101]) simp_all
  then have c2: "children_at shortcut_parser 64 (87 + 5) [92, 101] [92, 98, 100, 101] 104 105"
    by simp
  have s2: "sibling_ok 64 [] 105" by (simp add: sibling_ok_def)
  have "entry_at shortcut_parser 64 87 (87 # [92, 98, 100, 101] @ [104]) 105"
    by (rule entry_at_children_at.node [OF _ _ c2 s2, where tg = "''DW_TAG_type_unit''"])
       (simp_all add: shortcut_parser_def)
  then show "entry_at shortcut_parser 64 87 [87, 92, 98, 100, 101, 104] 105" by simp
qed

lemma absolute_shortcut_layout:
  "entry_at absolute_shortcut_parser 64 92 [92, 98, 100] 101"
proof -
  have n1: "children_at absolute_shortcut_parser 64 100 [] [] 100 (100 + 1)"
    by (rule entry_at_children_at.nil)
       (simp_all add: absolute_shortcut_parser_def shortcut_parser_def)
  have m: "entry_at absolute_shortcut_parser 64 98 [98] (98 + 2)"
    by (rule entry_at_children_at.leaf [where tg = "''DW_TAG_member''" and ats = "[]"])
       (simp_all add: absolute_shortcut_parser_def shortcut_parser_def)
  have "children_at absolute_shortcut_parser 64 98 (98 # []) ([98] @ []) 100 (100 + 1)"
    using m n1 by (intro entry_at_children_at.cons [where ?e1.0 = 100]) simp_all
  then have c1: "children_at absolute_shortcut_parser 64 (92 + 6) [98] [98] 100 101" by simp
  have s1: "sibling_ok 64 [(''DW_AT_sibling'', \<lparr>form = ''DW_FORM_ref_addr'', attr_value = 101\<rparr>)] 101"
    by code_simp
  have "entry_at absolute_shortcut_parser 64 92 (92 # [98] @ [100]) 101"
    by (rule entry_at_children_at.node [OF _ _ c1 s1, where tg = "''DW_TAG_structure_type''"])
       (simp_all add: absolute_shortcut_parser_def)
  then show ?thesis by simp
qed

text \<open>
  Claim C5. A tree is well formed when every entry takes at least one byte, every children
  list ends with a null entry, and the sibling reference of an entry with children, resolved
  as the specification says (the base offset added for the unit-relative forms, the value
  as it is for the absolute form), is the offset at which the entry's subtree ends. For
  every DIE with children in such a tree, at offset \<open>off\<close> with its subtree ending at
  \<open>e\<close>, on a consistent unit: the cursor the code computes from the sibling attribute is
  \<open>e\<close>; draining \<open>iter_DIE_children\<close> returns (given enough fuel) and leaves a terminator
  with \<open>terminator.offset + terminator.size = e\<close>; and on the same tree encoded without
  shortcuts, where the code has to take the scan, the cursor it computes is \<open>e\<close> again.
  \<open>iter_DIE_children\<close> enumerates the same offsets, those of the children in their order,
  from the tree encoded with shortcuts and from the tree encoded without them. So does
  \<open>iter_DIEs\<close> for the whole tree of a new unit, with the pre-order of the tree as the
  sequence, where the walk does not leave the tree (it replaces no entry by an import).
\<close>

theorem sibling_shortcut_equivalence:
  assumes "entry_at P (tu_offset u) off es e" "consistent P u" "tu_die_offset u < off"
    and "c < length (objects u)" "offset (objects u ! c) = off" "has_children (objects u ! c)"
  shows "(\<forall>s. map_of (attributes (objects u ! c)) ''DW_AT_sibling'' = Some s \<longrightarrow>
            sibling_offset (tu_offset u) s = Inr e \<and>
            next_cur_offset (Suc n) P T c off u = Some (Inr e, u)) \<and>
         (\<exists>m v tr. iter_DIE_children m P T pass c u = Some (Inr [], v) \<and>
            terminator (objects v ! c) = Some tr \<and>
            offset (objects v ! tr) + die_size (objects v ! tr) = e) \<and>
         (\<forall>u' c'. consistent (strip_siblings P) u' \<and> tu_offset u' = tu_offset u \<and>
            tu_die_offset u' < off \<and> c' < length (objects u') \<and> offset (objects u' ! c') = off \<longrightarrow>
            map_of (attributes (objects u' ! c')) ''DW_AT_sibling'' = None \<and>
            (\<exists>m v. next_cur_offset m (strip_siblings P) T c' off u' = Some (Inr e, v))) \<and>
         (\<exists>cs es' t. children_at P (tu_offset u) (off + die_size (objects u ! c)) cs es' t e \<and>
            (\<exists>m v ys. iter_DIE_children m P T keep c u = Some (Inr ys, v) \<and>
               offsets_of v ys = map Some cs) \<and>
            (\<forall>u' c'. consistent (strip_siblings P) u' \<and> tu_offset u' = tu_offset u \<and>
               tu_die_offset u' < off \<and> c' < length (objects u') \<and>
               offset (objects u' ! c') = off \<longrightarrow>
               (\<exists>m' v' ys'. iter_DIE_children m' (strip_siblings P) T keep c' u' = Some (Inr ys', v') \<and>
                  offsets_of v' ys' = map Some cs))) \<and>
         (\<forall>l w s a lo es0 e0 tg hc sz ats ats1 ats2.
            entry_at P a lo es0 e0 \<and> imports_off P (TypeUnit_init l w s a lo) es0 \<and>
            P lo = Inr (Entry tg hc sz ats) \<and> T ats = Inr ats1 \<and>
            T (filter (\<lambda>(name, a). name \<noteq> ''DW_AT_sibling'') ats) = Inr ats2 \<longrightarrow>
            (\<exists>m v ys m' v' ys'.
               iter_DIEs m P T G (TypeUnit_init l w s a lo) = Some (Inr ys, v) \<and>
               iter_DIEs m' (strip_siblings P) T G (TypeUnit_init l w s a lo) = Some (Inr ys', v') \<and>
               offsets_of v ys = map Some es0 \<and> offsets_of v' ys' = offsets_of v ys))"
proof -
  have c1: "\<forall>s. map_of (attributes (objects u ! c)) ''DW_AT_sibling'' = Some s \<longrightarrow>
      sibling_offset (tu_offset u) s = Inr e \<and>
      next_cur_offset (Suc n) P T c off u = Some (Inr e, u)"
  proof (intro allI impI)
    fix s assume s: "map_of (attributes (objects u ! c)) ''DW_AT_sibling'' = Some s"
    from assms(1) have so: "sibling_offset (tu_offset u) s = Inr e"
    proof (cases rule: entry_at.cases)
      case (leaf tg sz ats)
      with consistent_entry(2) [OF assms(2,4,5) leaf(3)] assms(6) show ?thesis by simp
    next
      case (node tg sz ats cs es' t)
      have "attributes (objects u ! c) = ats"
        using consistent_entry(4) [OF assms(2,4,5) node(2) assms(3)] .
      with s have "map_of ats ''DW_AT_sibling'' = Some s" by simp
      with node(5) show ?thesis by (rule sibling_ok_offset)
    qed
    moreover have "next_cur_offset (Suc n) P T c off u = Some (Inr e, u)"
      using assms(6) s so by (simp add: next_cur_offset_Suc)
    ultimately show "sibling_offset (tu_offset u) s = Inr e \<and>
        next_cur_offset (Suc n) P T c off u = Some (Inr e, u)" by simp
  qed
  have lo: "tu_die_offset u \<le> off" using assms(3) by simp
  from drain_correct [OF assms(1,2) lo assms(4,5,6), of T]
  have c2: "\<exists>m v tr. iter_DIE_children m P T pass c u = Some (Inr [], v) \<and>
      terminator (objects v ! c) = Some tr \<and>
      offset (objects v ! tr) + die_size (objects v ! tr) = e"
    by blast
  have en: "entry_at (strip_siblings P) (tu_offset u) off es e"
    using assms(1) by (rule strip_siblings_layout)
  have c3: "\<forall>u' c'. consistent (strip_siblings P) u' \<and> tu_offset u' = tu_offset u \<and>
      tu_die_offset u' < off \<and> c' < length (objects u') \<and> offset (objects u' ! c') = off \<longrightarrow>
      map_of (attributes (objects u' ! c')) ''DW_AT_sibling'' = None \<and>
      (\<exists>m v. next_cur_offset m (strip_siblings P) T c' off u' = Some (Inr e, v))"
  proof (intro allI impI)
    fix u' c'
    assume h: "consistent (strip_siblings P) u' \<and> tu_offset u' = tu_offset u \<and>
      tu_die_offset u' < off \<and> c' < length (objects u') \<and> offset (objects u' ! c') = off"
    then have h': "consistent (strip_siblings P) u'" "tu_offset u' = tu_offset u"
      "tu_die_offset u' < off" "c' < length (objects u')" "offset (objects u' ! c') = off"
      by blast+
    obtain tg hc sz ats where p: "strip_siblings P off = Inr (Entry tg hc sz ats)"
      using entry_at_parsed [OF en] by blast
    have "attributes (objects u' ! c') = ats"
      using consistent_entry(4) [OF h'(1,4,5) p h'(3)] .
    then have "map_of (attributes (objects u' ! c')) ''DW_AT_sibling'' = None"
      using strip_siblings_no_sibling [OF p] by simp
    moreover from scan_correct(1) [OF en h'(1,2,3,4,5), of T]
    have "\<exists>m v. next_cur_offset m (strip_siblings P) T c' off u' = Some (Inr e, v)" by blast
    ultimately show "map_of (attributes (objects u' ! c')) ''DW_AT_sibling'' = None \<and>
      (\<exists>m v. next_cur_offset m (strip_siblings P) T c' off u' = Some (Inr e, v))" by simp
  qed
  from assms(1) have c4: "\<exists>cs es' t.
      children_at P (tu_offset u) (off + die_size (objects u ! c)) cs es' t e \<and>
      (\<exists>m v ys. iter_DIE_children m P T keep c u = Some (Inr ys, v) \<and>
         offsets_of v ys = map Some cs) \<and>
      (\<forall>u' c'. consistent (strip_siblings P) u' \<and> tu_offset u' = tu_offset u \<and>
         tu_die_offset u' < off \<and> c' < length (objects u') \<and>
         offset (objects u' ! c') = off \<longrightarrow>
         (\<exists>m' v' ys'. iter_DIE_children m' (strip_siblings P) T keep c' u' = Some (Inr ys', v') \<and>
            offsets_of v' ys' = map Some cs))"
  proof (cases rule: entry_at.cases)
    case (leaf tg sz ats)
    with consistent_entry(2) [OF assms(2,4,5) leaf(3)] assms(6) show ?thesis by simp
  next
    case (node tg sz ats cs es' t)
    have sz: "die_size (objects u ! c) = sz" using consistent_entry(3) [OF assms(2,4,5) node(2)] .
    from children_correct [OF node(4,2,3) assms(2) lo assms(4,5), of T]
    have w: "\<exists>m v ys. iter_DIE_children m P T keep c u = Some (Inr ys, v) \<and>
        offsets_of v ys = map Some cs" by blast
    have p': "strip_siblings P off =
        Inr (Entry tg True sz (filter (\<lambda>(name, a). name \<noteq> ''DW_AT_sibling'') ats))"
      using node(2) by (simp add: strip_siblings_def)
    have ch': "children_at (strip_siblings P) (tu_offset u) (off + sz) cs es' t e"
      using node(4) by (rule strip_siblings_layout)
    have wo: "\<exists>m' v' ys'. iter_DIE_children m' (strip_siblings P) T keep c' u' = Some (Inr ys', v') \<and>
        offsets_of v' ys' = map Some cs"
      if h: "consistent (strip_siblings P) u'" "tu_offset u' = tu_offset u"
        "tu_die_offset u' < off" "c' < length (objects u')" "offset (objects u' ! c') = off"
      for u' c'
    proof -
      have ch'': "children_at (strip_siblings P) (tu_offset u') (off + sz) cs es' t e"
        using ch' h(2) by simp
      have lo': "tu_die_offset u' \<le> off" using h(3) by simp
      from children_correct [OF ch'' p' node(3) h(1) lo' h(4,5), of T]
      show ?thesis by blast
    qed
    have "children_at P (tu_offset u) (off + die_size (objects u ! c)) cs es' t e"
      using node(4) sz by simp
    with w wo show ?thesis by blast
  qed
  have c5: "\<forall>l w s a lo es0 e0 tg hc sz ats ats1 ats2.
      entry_at P a lo es0 e0 \<and> imports_off P (TypeUnit_init l w s a lo) es0 \<and>
      P lo = Inr (Entry tg hc sz ats) \<and> T ats = Inr ats1 \<and>
      T (filter (\<lambda>(name, a). name \<noteq> ''DW_AT_sibling'') ats) = Inr ats2 \<longrightarrow>
      (\<exists>m v ys m' v' ys'.
         iter_DIEs m P T G (TypeUnit_init l w s a lo) = Some (Inr ys, v) \<and>
         iter_DIEs m' (strip_siblings P) T G (TypeUnit_init l w s a lo) = Some (Inr ys', v') \<and>
         offsets_of v ys = map Some es0 \<and> offsets_of v' ys' = offsets_of v ys)"
  proof (intro allI impI)
    fix l w s a lo es0 e0 tg hc sz ats ats1 ats2
    assume h: "entry_at P a lo es0 e0 \<and> imports_off P (TypeUnit_init l w s a lo) es0 \<and>
      P lo = Inr (Entry tg hc sz ats) \<and> T ats = Inr ats1 \<and>
      T (filter (\<lambda>(name, a). name \<noteq> ''DW_AT_sibling'') ats) = Inr ats2"
    then have h': "entry_at P a lo es0 e0" "imports_off P (TypeUnit_init l w s a lo) es0"
      "P lo = Inr (Entry tg hc sz ats)" "T ats = Inr ats1"
      and t2: "T (filter (\<lambda>(name, a). name \<noteq> ''DW_AT_sibling'') ats) = Inr ats2"
      by blast+
    from iter_DIEs_new_unit [where P = P and T = T and G = G, OF h']
    obtain m v ys where r: "iter_DIEs m P T G (TypeUnit_init l w s a lo) = Some (Inr ys, v)"
      "offsets_of v ys = map Some es0" by blast
    have p': "strip_siblings P lo = Inr (Entry tg hc sz (filter (\<lambda>(name, a). name \<noteq> ''DW_AT_sibling'') ats))"
      using h'(3) by (simp add: strip_siblings_def)
    from iter_DIEs_new_unit [where P = "strip_siblings P" and T = T and G = G,
      OF strip_siblings_layout(1) [OF h'(1)] imports_off_strip [OF h'(2)] p' t2]
    obtain m' v' ys'
      where r': "iter_DIEs m' (strip_siblings P) T G (TypeUnit_init l w s a lo) = Some (Inr ys', v')"
      "offsets_of v' ys' = map Some es0" by blast
    from r r' show "\<exists>m v ys m' v' ys'.
      iter_DIEs m P T G (TypeUnit_init l w s a lo) = Some (Inr ys, v) \<and>
      iter_DIEs m' (strip_siblings P) T G (TypeUnit_init l w s a lo) = Some (Inr ys', v') \<and>
      offsets_of v ys = map Some es0 \<and> offsets_of v' ys' = offsets_of v ys"
      by (intro exI [of _ m] exI [of _ v] exI [of _ ys] exI [of _ m'] exI [of _ v'] exI [of _ ys'])
         simp
  qed
  from c1 c2 c3 c4 c5 show ?thesis by (intro conjI)
qed

theorem sibling_shortcut_equivalence_witness:
  "entry_at shortcut_parser (tu_offset shortcut_child_cached) 92 [92, 98, 100] 101 \<and>
   consistent shortcut_parser shortcut_child_cached \<and>
   tu_die_offset shortcut_child_cached < 92 \<and> 1 < length (objects shortcut_child_cached) \<and>
   offset (objects shortcut_child_cached ! 1) = 92 \<and>
   has_children (objects shortcut_child_cached ! 1) \<and>
   map_of (attributes (objects shortcut_child_cached ! 1)) ''DW_AT_sibling''
     = Some \<lparr>form = ''DW_FORM_ref4'', attr_value = 37\<rparr> \<and>
   next_cur_offset (Suc 0) shortcut_parser Inr 1 92 shortcut_child_cached
     = Some (Inr 101, shortcut_child_cached) \<and>
   map_option (\<lambda>(r, v). (r, map_option (\<lambda>t. offset (objects v ! t) + die_size (objects v ! t))
                                 (terminator (objects v ! 1))))
      (iter_DIE_children 4 shortcut_parser Inr pass 1 shortcut_child_cached)
     = Some (Inr [], Some 101) \<and>
   map_option fst (next_cur_offset 5 (strip_siblings shortcut_parser) Inr 1 92
      (snd (get_cached_DIE (strip_siblings shortcut_parser) Inr shortcut_unit 92)))
     = Some (Inr 101) \<and>
   enumerated_offsets (iter_DIE_children 4 shortcut_parser Inr keep 0
      (snd (get_top_DIE shortcut_parser Inr shortcut_unit)))
     = Some (Inr (map Some [92, 101])) \<and>
   enumerated_offsets (iter_DIE_children 6 (strip_siblings shortcut_parser) Inr keep 0
      (snd (get_top_DIE (strip_siblings shortcut_parser) Inr shortcut_unit)))
     = Some (Inr (map Some [92, 101])) \<and>
   entry_at absolute_shortcut_parser
      (tu_offset (snd (get_cached_DIE absolute_shortcut_parser Inr shortcut_unit 92)))
      92 [92, 98, 100] 101 \<and>
   consistent absolute_shortcut_parser
      (snd (get_cached_DIE absolute_shortcut_parser Inr shortcut_unit 92)) \<and>
   map_of (attributes (objects (snd (get_cached_DIE absolute_shortcut_parser Inr shortcut_unit 92)) ! 1))
      ''DW_AT_sibling'' = Some \<lparr>form = ''DW_FORM_ref_addr'', attr_value = 101\<rparr> \<and>
   next_cur_offset (Suc 0) absolute_shortcut_parser Inr 1 92
      (snd (get_cached_DIE absolute_shortcut_parser Inr shortcut_unit 92))
     = Some (Inr 101, snd (get_cached_DIE absolute_shortcut_parser Inr shortcut_unit 92)) \<and>
   enumerated_offsets (iter_DIEs 7 absolute_shortcut_parser Inr no_import shortcut_unit)
     = Some (Inr (map Some [87, 92, 98, 100, 101, 104])) \<and>
   imports_off shortcut_parser shortcut_unit [87, 92, 98, 100, 101, 104] \<and>
   enumerated_offsets (iter_DIEs 7 shortcut_parser Inr no_import shortcut_unit)
     = Some (Inr (map Some [87, 92, 98, 100, 101, 104])) \<and>
   enumerated_offsets (iter_DIEs 7 (strip_siblings shortcut_parser) Inr no_import shortcut_unit)
     = Some (Inr (map Some [87, 92, 98, 100, 101, 104]))"
proof -
  have b: "tu_offset shortcut_child_cached = 64" "tu_die_offset shortcut_child_cached < 92"
    "1 < length (objects shortcut_child_cached)" "offset (objects shortcut_child_cached ! 1) = 92"
    "has_children (objects shortcut_child_cached ! 1)"
    by code_simp+
  have en: "entry_at shortcut_parser (tu_offset shortcut_child_cached) 92 [92, 98, 100] 101"
    using shortcut_layout(1) b(1) by simp
  have co: "consistent shortcut_parser shortcut_child_cached"
    unfolding shortcut_child_cached_def shortcut_unit_def
    by (rule lookup_new_unit [where tg = "''DW_TAG_type_unit''" and ats = "[]"])
       (simp_all add: shortcut_parser_def)
  have r0: "map_of (attributes (objects shortcut_child_cached ! 1)) ''DW_AT_sibling''
     = Some \<lparr>form = ''DW_FORM_ref4'', attr_value = 37\<rparr>" by code_simp
  have r1: "next_cur_offset (Suc 0) shortcut_parser Inr 1 92 shortcut_child_cached
     = Some (Inr 101, shortcut_child_cached)" by code_simp
  have r2: "map_option (\<lambda>(r, v). (r, map_option (\<lambda>t. offset (objects v ! t) + die_size (objects v ! t))
                                 (terminator (objects v ! 1))))
      (iter_DIE_children 4 shortcut_parser Inr pass 1 shortcut_child_cached)
     = Some (Inr [], Some 101)" by code_simp
  have r3: "map_option fst (next_cur_offset 5 (strip_siblings shortcut_parser) Inr 1 92
      (snd (get_cached_DIE (strip_siblings shortcut_parser) Inr shortcut_unit 92)))
     = Some (Inr 101)" by code_simp
  have r4: "enumerated_offsets (iter_DIEs 7 shortcut_parser Inr no_import shortcut_unit)
     = Some (Inr (map Some [87, 92, 98, 100, 101, 104]))" by code_simp
  have r5: "enumerated_offsets (iter_DIEs 7 (strip_siblings shortcut_parser) Inr no_import shortcut_unit)
     = Some (Inr (map Some [87, 92, 98, 100, 101, 104]))" by code_simp
  have r6: "enumerated_offsets (iter_DIE_children 4 shortcut_parser Inr keep 0
      (snd (get_top_DIE shortcut_parser Inr shortcut_unit)))
     = Some (Inr (map Some [92, 101]))" by code_simp
  have r7: "enumerated_offsets (iter_DIE_children 6 (strip_siblings shortcut_parser) Inr keep 0
      (snd (get_top_DIE (strip_siblings shortcut_parser) Inr shortcut_unit)))
     = Some (Inr (map Some [92, 101]))" by code_simp
  have io: "imports_off shortcut_parser shortcut_unit [87, 92, 98, 100, 101, 104]"
    by (simp add: imports_off_def shortcut_unit_def TypeUnit_init_def)
  let ?a = "snd (get_cached_DIE absolute_shortcut_parser Inr shortcut_unit 92)"
  have ba: "tu_offset ?a = 64" "tu_die_offset ?a < 92" "1 < length (objects ?a)"
    "offset (objects ?a ! 1) = 92" "has_children (objects ?a ! 1)"
    by code_simp+
  have ena: "entry_at absolute_shortcut_parser (tu_offset ?a) 92 [92, 98, 100] 101"
    using absolute_shortcut_layout ba(1) by simp
  have coa: "consistent absolute_shortcut_parser ?a"
    unfolding shortcut_unit_def
    by (rule lookup_new_unit [where tg = "''DW_TAG_type_unit''" and ats = "[]"])
       (simp_all add: absolute_shortcut_parser_def shortcut_parser_def)
  have a0: "map_of (attributes (objects ?a ! 1)) ''DW_AT_sibling''
     = Some \<lparr>form = ''DW_FORM_ref_addr'', attr_value = 101\<rparr>" by code_simp
  note second = sibling_shortcut_equivalence [OF ena coa ba(2-5), of 0 Inr no_import]
  have a1: "next_cur_offset (Suc 0) absolute_shortcut_parser Inr 1 92 ?a = Some (Inr 101, ?a)"
    using second [THEN conjunct1, rule_format, OF a0] by simp
  have a2: "enumerated_offsets (iter_DIEs 7 absolute_shortcut_parser Inr no_import shortcut_unit)
     = Some (Inr (map Some [87, 92, 98, 100, 101, 104]))" by code_simp
  have all: ?thesis
    using en co b r0 r1 r2 r3 r4 r5 r6 r7 io ena coa a0 a1 a2 by simp
  from sibling_shortcut_equivalence [OF en co b(2-5), of 0 Inr no_import] second
  show ?thesis by - (rule all)
qed

lemma unit_inv_minimum:
  assumes "unit_inv u" "x \<in> set (diemap u)"
  shows "tu_die_offset u \<le> x"
proof -
  from assms(2) obtain k where k: "k < length (diemap u)" "diemap u ! k = x"
    by (auto simp: in_set_conv_nth)
  have so: "sorted_wrt (<) (diemap u)" using assms(1) by (simp add: unit_inv_def cache_sorted_def)
  have ne: "diemap u \<noteq> []" using k(1) by auto
  then have z: "diemap u ! 0 = tu_die_offset u" using assms(1) by (simp add: unit_inv_def top_first_def)
  show ?thesis
  proof (cases k)
    case 0
    with k z show ?thesis by simp
  next
    case (Suc j)
    then have "diemap u ! 0 < diemap u ! k" using so k(1) by (simp add: sorted_wrt_iff_nth_less)
    with k z show ?thesis by simp
  qed
qed

lemma get_top_DIE_unit_inv:
  assumes "unit_inv u"
  shows "unit_inv (snd (get_top_DIE P T u))" "same_unit u (snd (get_top_DIE P T u))"
proof -
  obtain r v where g: "get_top_DIE P T u = (r, v)" by (cases "get_top_DIE P T u")
  have "cache_sorted v" "top_first v"
    using assms get_top_DIE_sorted [OF _ g] get_top_DIE_top_first [OF _ g]
    by (simp_all add: unit_inv_def)
  then show "unit_inv (snd (get_top_DIE P T u))" using g by (simp add: unit_inv_def)
  show "same_unit u (snd (get_top_DIE P T u))" using get_top_DIE_same_unit [OF g] g by simp
qed

lemma get_DIE_from_refaddr_unit_inv:
  assumes "unit_inv u"
  shows "unit_inv (snd (get_DIE_from_refaddr P T u a))"
    "same_unit u (snd (get_DIE_from_refaddr P T u a))"
proof -
  obtain r v where g: "get_cached_DIE P T u a = (r, v)" by (cases "get_cached_DIE P T u a")
  have "unit_inv v" if "tu_die_offset u \<le> a"
    using assms that g by (rule get_cached_DIE_unit_inv)
  then show "unit_inv (snd (get_DIE_from_refaddr P T u a))"
    using assms g by (simp add: get_DIE_from_refaddr_def cu_die_offset_def)
  show "same_unit u (snd (get_DIE_from_refaddr P T u a))"
    using get_cached_DIE_same_unit [OF g] g by (simp add: get_DIE_from_refaddr_def same_unit_refl)
qed

lemma kept_refl: "cache_sorted u \<Longrightarrow> kept u u"
  by (simp add: kept_def same_unit_refl)

lemma kept_pass: "kept u0 v \<Longrightarrow> pass c v = Some (x, v') \<Longrightarrow> kept u0 v'"
  by (simp add: pass_def)

lemma kept_keep: "kept u0 v \<Longrightarrow> keep c v = Some (x, v') \<Longrightarrow> kept u0 v'"
  by (simp add: keep_def)

text \<open>
  Claim C3. The comments of \<open>get_top_DIE\<close> and \<open>_get_cached_DIE\<close> state the invariant
  of the claim: the top DIE has the minimal offset and is first in the cache, so that the
  insertion point of a lookup is at least 1. The code does not keep it on every stream. In
  the unit below the top DIE is at offset 23 and its child at 28 carries a sibling reference
  of the absolute form to offset 5; nothing checks that reference against the range of the
  unit, as \<open>get_DIE_from_refaddr\<close> does for its argument. \<open>iter_DIEs\<close> on the new unit
  returns, having yielded the entries at 23, 28, 34, 5 and 6, and leaves the cache
  \<open>[5, 6, 23, 28, 34]\<close>: in ascending order, but with the top DIE's offset 23 neither its
  minimum nor at position 0. \<open>get_top_DIE\<close> then returns the entry at offset 5.
\<close>

theorem stray_sibling_breaks_top_first:
  "enumerated_offsets (iter_DIEs 6 stray_sibling_parser Inr no_import example_unit)
     = Some (Inr (map Some [23, 28, 34, 5, 6])) \<and>
   map_option (\<lambda>(r, v). (diemap v, tu_die_offset v,
        map_sum id (\<lambda>t. offset (objects v ! t)) (fst (get_top_DIE stray_sibling_parser Inr v))))
     (iter_DIEs 6 stray_sibling_parser Inr no_import example_unit)
     = Some ([5, 6, 23, 28, 34], 23, Inr 5)"
  by code_simp

text \<open>
  What the operations do keep. The invariant is: the cache is in (strictly) ascending order
  of offset, the DIE list is parallel to it, and a non-empty cache has the top DIE's offset
  at position 0, hence as its minimum. The size of a unit is its declared length plus the
  width of the length field, and no operation changes the header. \<open>get_top_DIE\<close>,
  \<open>has_top_DIE\<close> and \<open>get_DIE_from_refaddr\<close> preserve the invariant; \<open>_get_cached_DIE\<close>
  preserves it when the offset is not below the top DIE's offset. For any offset, and for the
  iterations over any stream, the header and the ascending order of the cache are preserved.
  On a well-formed tree the iterations return and preserve the whole invariant.
\<close>

theorem unit_invariant_preserved:
  assumes "unit_inv u"
  shows "(tu_size u = unit_length u + initial_length_field_size u) \<and>
    (\<forall>x\<in>set (diemap u). tu_die_offset u \<le> x) \<and>
    (unit_inv (snd (get_top_DIE P T u)) \<and> same_unit u (snd (get_top_DIE P T u))) \<and>
    (snd (has_top_DIE u) = u) \<and>
    (unit_inv (snd (get_DIE_from_refaddr P T u a)) \<and>
     same_unit u (snd (get_DIE_from_refaddr P T u a))) \<and>
    (kept u (snd (get_cached_DIE P T u off)) \<and>
     (tu_die_offset u \<le> off \<longrightarrow> unit_inv (snd (get_cached_DIE P T u off)))) \<and>
    (\<forall>v. kept u v \<longrightarrow> cache_sorted v \<and> tu_size v = tu_size u) \<and>
    (\<forall>r v. iter_DIE_children n P T keep die u = Some (r, v) \<longrightarrow> kept u v) \<and>
    (\<forall>r v. (\<forall>c w x w'. kept u w \<and> G c w = (x, w') \<longrightarrow> kept u w') \<and>
     iter_DIEs n P T G u = Some (r, v) \<longrightarrow> kept u v) \<and>
    (\<forall>es e. entry_at P (tu_offset u) (tu_die_offset u) es e \<and> consistent P u \<and>
     imports_off P u es \<longrightarrow>
     (\<exists>m ys v. iter_DIEs m P T G u = Some (Inr ys, v) \<and> unit_inv v \<and> same_unit u v)) \<and>
    (\<forall>off es e c. entry_at P (tu_offset u) off es e \<and> consistent P u \<and>
     tu_die_offset u \<le> off \<and> c < length (objects u) \<and> offset (objects u ! c) = off \<and>
     has_children (objects u ! c) \<longrightarrow>
     (\<exists>m ys v. iter_DIE_children m P T keep c u = Some (Inr ys, v) \<and> unit_inv v \<and>
     same_unit u v))"
proof -
  have cs: "cache_sorted u" using assms by (simp add: unit_inv_def)
  have ku: "kept u u" using cs by (rule kept_refl)
  have c1: "tu_size u = unit_length u + initial_length_field_size u" by (simp add: tu_size_def)
  have c2: "\<forall>x\<in>set (diemap u). tu_die_offset u \<le> x" using unit_inv_minimum [OF assms] by blast
  have c3: "unit_inv (snd (get_top_DIE P T u)) \<and> same_unit u (snd (get_top_DIE P T u))"
    using get_top_DIE_unit_inv [OF assms] by blast
  have c4: "snd (has_top_DIE u) = u" by (simp add: has_top_DIE_def)
  have c5: "unit_inv (snd (get_DIE_from_refaddr P T u a)) \<and>
      same_unit u (snd (get_DIE_from_refaddr P T u a))"
    using get_DIE_from_refaddr_unit_inv [OF assms] by blast
  have c6: "kept u (snd (get_cached_DIE P T u off)) \<and>
      (tu_die_offset u \<le> off \<longrightarrow> unit_inv (snd (get_cached_DIE P T u off)))"
  proof -
    obtain r v where g: "get_cached_DIE P T u off = (r, v)" by (cases "get_cached_DIE P T u off")
    have "kept u v" using ku g by (rule kept_lookup)
    moreover have "unit_inv v" if "tu_die_offset u \<le> off"
      using assms that g by (rule get_cached_DIE_unit_inv)
    ultimately show ?thesis using g by simp
  qed
  have c7: "\<forall>v. kept u v \<longrightarrow> cache_sorted v \<and> tu_size v = tu_size u"
    by (simp add: kept_def same_unit_def tu_size_def)
  have c8: "\<forall>r v. iter_DIE_children n P T keep die u = Some (r, v) \<longrightarrow> kept u v"
  proof (intro allI impI)
    fix r v assume "iter_DIE_children n P T keep die u = Some (r, v)"
    with kept_keep ku show "kept u v"
      by (rule iter_DIE_children_kept [where body = keep])
  qed
  have c9: "\<forall>r v. (\<forall>c w x w'. kept u w \<and> G c w = (x, w') \<longrightarrow> kept u w') \<and>
      iter_DIEs n P T G u = Some (r, v) \<longrightarrow> kept u v"
  proof (intro allI impI)
    fix r v
    assume h: "(\<forall>c w x w'. kept u w \<and> G c w = (x, w') \<longrightarrow> kept u w') \<and>
      iter_DIEs n P T G u = Some (r, v)"
    then have gk: "\<And>c w x w'. kept u w \<Longrightarrow> G c w = (x, w') \<Longrightarrow> kept u w'" by blast
    obtain r1 u1 where top: "get_top_DIE P T u = (r1, u1)" by (cases "get_top_DIE P T u")
    have k1: "kept u u1"
      using get_top_DIE_sorted [OF cs top] get_top_DIE_same_unit [OF top] by (simp add: kept_def)
    show "kept u v"
    proof (cases r1)
      case (Inl e)
      with h top k1 show ?thesis by (simp add: iter_DIEs_def)
    next
      case (Inr t)
      with h top have "iter_DIE_subtree n P T G t u1 = Some (r, v)" by (simp add: iter_DIEs_def)
      with gk k1 show ?thesis by (rule iter_DIE_subtree_kept)
    qed
  qed
  have c10: "\<forall>es e. entry_at P (tu_offset u) (tu_die_offset u) es e \<and> consistent P u \<and>
      imports_off P u es \<longrightarrow>
      (\<exists>m ys v. iter_DIEs m P T G u = Some (Inr ys, v) \<and> unit_inv v \<and> same_unit u v)"
  proof (intro allI impI)
    fix es e
    assume "entry_at P (tu_offset u) (tu_die_offset u) es e \<and> consistent P u \<and> imports_off P u es"
    then have h: "entry_at P (tu_offset u) (tu_die_offset u) es e" "consistent P u" "imports_off P u es"
      by blast+
    from iter_DIEs_consistent [OF h, of T G]
    obtain m v ys where "iter_DIEs m P T G u = Some (Inr ys, v)" "consistent P v" "grows u v"
      by blast
    then have "iter_DIEs m P T G u = Some (Inr ys, v) \<and> unit_inv v \<and> same_unit u v"
      by (simp add: consistent_unit(3) grows_def)
    then show "\<exists>m ys v. iter_DIEs m P T G u = Some (Inr ys, v) \<and> unit_inv v \<and> same_unit u v"
      by blast
  qed
  have c11: "\<forall>off es e c. entry_at P (tu_offset u) off es e \<and> consistent P u \<and>
      tu_die_offset u \<le> off \<and> c < length (objects u) \<and> offset (objects u ! c) = off \<and>
      has_children (objects u ! c) \<longrightarrow>
      (\<exists>m ys v. iter_DIE_children m P T keep c u = Some (Inr ys, v) \<and> unit_inv v \<and>
         same_unit u v)"
  proof (intro allI impI)
    fix off es e c
    assume "entry_at P (tu_offset u) off es e \<and> consistent P u \<and>
      tu_die_offset u \<le> off \<and> c < length (objects u) \<and> offset (objects u ! c) = off \<and>
      has_children (objects u ! c)"
    then have h: "entry_at P (tu_offset u) off es e" "consistent P u" "tu_die_offset u \<le> off"
      "c < length (objects u)" "offset (objects u ! c) = off" "has_children (objects u ! c)"
      by blast+
    from h(1) show "\<exists>m ys v. iter_DIE_children m P T keep c u = Some (Inr ys, v) \<and> unit_inv v \<and>
         same_unit u v"
    proof (cases rule: entry_at.cases)
      case (leaf tg sz ats)
      with consistent_entry(2) [OF h(2,4,5) leaf(3)] h(6) show ?thesis by simp
    next
      case (node tg sz ats cs es' t)
      from children_correct [OF node(4,2,3) h(2,3,4,5), of T]
      obtain m v ys where "iter_DIE_children m P T keep c u = Some (Inr ys, v)" "consistent P v"
        "grows u v" by blast
      then have "iter_DIE_children m P T keep c u = Some (Inr ys, v) \<and> unit_inv v \<and> same_unit u v"
        by (simp add: consistent_unit(3) grows_def)
      then show ?thesis by blast
    qed
  qed
  from c1 c2 c3 c4 c5 c6 c7 c8 c9 c10 c11 show ?thesis by blast
qed

theorem unit_invariant_preserved_witness:
  "unit_inv example_top_cached \<and>
   tu_size example_top_cached = 30 \<and>
   diemap (snd (get_DIE_from_refaddr example_parser Inr example_top_cached 28)) = [23, 28] \<and>
   unit_inv (snd (get_DIE_from_refaddr example_parser Inr example_top_cached 28)) \<and>
   tu_size (snd (get_DIE_from_refaddr example_parser Inr example_top_cached 28)) = 30 \<and>
   kept example_top_cached (snd (get_cached_DIE example_parser Inr example_top_cached 28)) \<and>
   map_option (\<lambda>(r, v). (diemap v, tu_size v))
     (iter_DIEs 4 example_parser Inr no_import example_top_cached) = Some ([23, 28, 29], 30) \<and>
   (\<exists>m ys v. iter_DIEs m example_parser Inr no_import example_top_cached = Some (Inr ys, v) \<and>
      unit_inv v \<and> same_unit example_top_cached v)"
proof -
  have i: "unit_inv example_top_cached" by (rule example_top_cached_inv)
  have b: "tu_offset example_top_cached = 0" "tu_die_offset example_top_cached = 23"
    "tu_size example_top_cached = 30"
    by (simp_all add: example_top_cached_def example_unit_def TypeUnit_init_def tu_size_def)
  have en: "entry_at example_parser (tu_offset example_top_cached)
      (tu_die_offset example_top_cached) [23, 28, 29] 30"
    using example_layout b by simp
  have io: "imports_off example_parser example_top_cached [23, 28, 29]"
    by (simp add: imports_off_def example_top_cached_def example_unit_def TypeUnit_init_def)
  have r1: "diemap (snd (get_DIE_from_refaddr example_parser Inr example_top_cached 28)) = [23, 28]"
    by code_simp
  have r2: "map_option (\<lambda>(r, v). (diemap v, tu_size v))
     (iter_DIEs 4 example_parser Inr no_import example_top_cached) = Some ([23, 28, 29], 30)"
    by code_simp
  note t = unit_invariant_preserved [OF i, where P = example_parser and T = Inr and a = 28
      and off = 28 and n = 4 and G = no_import and die = 0]
  note t5 = t [THEN conjunct2, THEN conjunct2, THEN conjunct2, THEN conjunct2, THEN conjunct1]
  note t6 = t [THEN conjunct2, THEN conjunct2, THEN conjunct2, THEN conjunct2, THEN conjunct2,
      THEN conjunct1, THEN conjunct1]
  note t10 = t [THEN conjunct2, THEN conjunct2, THEN conjunct2, THEN conjunct2, THEN conjunct2,
      THEN conjunct2, THEN conjunct2, THEN conjunct2, THEN conjunct2, THEN conjunct1,
      rule_format, of "[23, 28, 29]" 30]
  have s: "tu_size (snd (get_DIE_from_refaddr example_parser Inr example_top_cached 28)) = 30"
    using t5 b(3) by (simp add: same_unit_def tu_size_def)
  have x: "\<exists>m ys v. iter_DIEs m example_parser Inr no_import example_top_cached = Some (Inr ys, v) \<and>
      unit_inv v \<and> same_unit example_top_cached v"
    using t10 en example_top_cached_consistent io by simp
  show ?thesis
    using i b(3) r1 t5 s t6 r2 x by simp
qed

end
